theory Spec2Isabelle
  imports Main "HOL-Library.AList"
begin

section \<open>JavaScript values used by the background task manager\<close>

text \<open>
  The manager is written in TypeScript. An optional value (\<open>undefined\<close> or
  \<open>null\<close>) is \<open>None\<close>. The tests \<open>if (x)\<close> and \<open>!x\<close> on an optional
  string follow JavaScript truthiness: absent and the empty string are both falsy.
\<close>

definition truthy :: "string option \<Rightarrow> bool" where
  "truthy v = (case v of None \<Rightarrow> False | Some s \<Rightarrow> s \<noteq> [])"

text \<open>\<open>String.prototype.indexOf\<close> for a single character: the first position, or -1.\<close>

fun indexOf :: "string \<Rightarrow> char \<Rightarrow> int" where
  "indexOf [] c = - 1"
| "indexOf (x # xs) c =
     (if x = c then 0 else if indexOf xs c < 0 then - 1 else indexOf xs c + 1)"

text \<open>\<open>Array.prototype.join\<close> on strings.\<close>

fun join :: "string \<Rightarrow> string list \<Rightarrow> string" where
  "join sep [] = []"
| "join sep [x] = x"
| "join sep (x # y # ys) = x @ sep @ join sep (y # ys)"

section \<open>Model references\<close>

record model_ref =
  providerID :: string
  modelID :: string

definition parseModelReference :: "string \<Rightarrow> model_ref option" where
  "parseModelReference model =
     (let slashIndex = indexOf model (CHR ''/'') in
      if slashIndex \<le> 0 \<or> slashIndex \<ge> int (length model) - 1 then None
      else Some \<lparr>providerID = take (nat slashIndex) model,
                 modelID = drop (nat (slashIndex + 1)) model\<rparr>)"

section \<open>Delegation policy\<close>

text \<open>
  The tables the manager reads with a role name as key (\<open>SUBAGENT_DELEGATION_RULES\<close>,
  \<open>fallback.chains\<close>, \<open>agents\<close>) are plain objects, and the role name is any string
  \<open>launch\<close> was given. Reading \<open>obj[key]\<close> yields the object's own entry if it has one,
  otherwise the property of that name inherited from \<open>Object.prototype\<close> if there is one,
  otherwise \<open>undefined\<close>. \<open>objectPrototype\<close> lists the inherited names with the
  \<open>length\<close> property of the inherited value: the arity of the inherited function, and
  none for \<open>__proto__\<close>, which reads as the prototype object itself. None of the
  inherited values is an array, is iterable, or has an \<open>includes\<close> method or a \<open>model\<close>
  property.
\<close>

definition objectPrototype :: "string \<rightharpoonup> int option" where
  "objectPrototype =
     [''constructor'' \<mapsto> Some 1,
      ''hasOwnProperty'' \<mapsto> Some 1,
      ''isPrototypeOf'' \<mapsto> Some 1,
      ''propertyIsEnumerable'' \<mapsto> Some 1,
      ''toLocaleString'' \<mapsto> Some 0,
      ''toString'' \<mapsto> Some 0,
      ''valueOf'' \<mapsto> Some 0,
      ''__proto__'' \<mapsto> None,
      ''__defineGetter__'' \<mapsto> Some 2,
      ''__defineSetter__'' \<mapsto> Some 2,
      ''__lookupGetter__'' \<mapsto> Some 1,
      ''__lookupSetter__'' \<mapsto> Some 1]"

datatype 'a js_property = Own 'a | Inherited "int option" | Missing

definition getProperty :: "(string \<rightharpoonup> 'a) \<Rightarrow> string \<Rightarrow> 'a js_property" where
  "getProperty obj key =
     (case obj key of
        Some v \<Rightarrow> Own v
      | None \<Rightarrow> (case objectPrototype key of Some len \<Rightarrow> Inherited len | None \<Rightarrow> Missing))"

text \<open>The one error the modelled code can raise by itself at run time.\<close>

datatype js_error = TypeError

text \<open>
  \<open>SUBAGENT_DELEGATION_RULES\<close> of \<open>config/constants.ts\<close>, with \<open>SUBAGENT_NAMES\<close>.
  \<open>getSubagentRules\<close> is typed to return an array; what it returns is the array of the
  table's entry, the default array, or, for an inherited name, the inherited value, which
  passes the \<open>??\<close> because it is not nullish. \<open>Foreign len\<close> is such a value, with its
  \<open>length\<close> property.
\<close>

definition SUBAGENT_NAMES :: "string list" where
  "SUBAGENT_NAMES = [''explorer'', ''librarian'', ''oracle'', ''designer'', ''fixer'']"

definition SUBAGENT_DELEGATION_RULES :: "string \<rightharpoonup> string list" where
  "SUBAGENT_DELEGATION_RULES =
     [''orchestrator'' \<mapsto> SUBAGENT_NAMES,
      ''fixer'' \<mapsto> [],
      ''designer'' \<mapsto> [],
      ''explorer'' \<mapsto> [],
      ''librarian'' \<mapsto> [],
      ''oracle'' \<mapsto> []]"

datatype roster_value = Roster "string list" | Foreign "int option"

definition getSubagentRules :: "string \<Rightarrow> roster_value" where
  "getSubagentRules agentName =
     (case getProperty SUBAGENT_DELEGATION_RULES agentName of
        Own rules \<Rightarrow> Roster rules
      | Inherited len \<Rightarrow> Foreign len
      | Missing \<Rightarrow> Roster [''explorer''])"

record tool_permissions =
  background_task :: bool
  task :: bool

definition calculateToolPermissions :: "string \<Rightarrow> tool_permissions" where
  "calculateToolPermissions agentName =
     (let allowedSubagents = getSubagentRules agentName in
      if (case allowedSubagents of Roster rules \<Rightarrow> length rules = 0 | Foreign len \<Rightarrow> len = Some 0)
      then \<lparr>background_task = False, task = False\<rparr>
      else \<lparr>background_task = True, task = True\<rparr>)"

section \<open>Plugin configuration\<close>

text \<open>
  The parts of \<open>PluginConfig\<close> the manager reads. Every level is optional, as the
  optional chaining of the source has it; a configured chain may hold null entries. The
  tables indexed by role name hold the entries of the configuration and are read with
  \<open>getProperty\<close>.
\<close>

record agent_override =
  model :: "string option"

record fallback_config =
  enabled :: "bool option"
  timeoutMs :: "int option"
  chains :: "(string \<rightharpoonup> string option list) option"

record background_config =
  cfg_maxConcurrentStarts :: int

record plugin_config =
  fallback :: "fallback_config option"
  agents :: "(string \<rightharpoonup> agent_override) option"
  background :: "background_config option"

definition FALLBACK_FAILOVER_TIMEOUT_MS :: int where
  "FALLBACK_FAILOVER_TIMEOUT_MS = 15000"

section \<open>Fallback chain resolution\<close>

text \<open>
  \<open>chains?.[agentName] ?? []\<close>: the configured array, the empty default, or an inherited
  value that is not an array.
\<close>

datatype chain_value = ChainArray "string option list" | ChainForeign

definition configuredChain :: "plugin_config option \<Rightarrow> string \<Rightarrow> chain_value" where
  "configuredChain cfg agentName =
     (case Option.bind (Option.bind cfg fallback) chains of
        None \<Rightarrow> ChainArray []
      | Some c \<Rightarrow>
          (case getProperty c agentName of
             Own chain \<Rightarrow> ChainArray chain
           | Inherited len \<Rightarrow> ChainForeign
           | Missing \<Rightarrow> ChainArray []))"

text \<open>
  \<open>this.config?.agents?.[agentName]?.model\<close>: an inherited value has no \<open>model\<close>
  property.
\<close>

definition primaryModel :: "plugin_config option \<Rightarrow> string \<Rightarrow> string option" where
  "primaryModel cfg agentName =
     (case Option.bind cfg agents of
        None \<Rightarrow> None
      | Some a \<Rightarrow>
          (case getProperty a agentName of
             Own override \<Rightarrow> model override
           | Inherited len \<Rightarrow> None
           | Missing \<Rightarrow> None))"

text \<open>
  The \<open>for\<close> loop of \<open>resolveFallbackChain\<close>: \<open>seen\<close> is the set, \<open>chain\<close> the
  array built so far.
\<close>

fun chainLoop :: "string option list \<Rightarrow> string set \<Rightarrow> string list \<Rightarrow> string list" where
  "chainLoop [] seen chain = chain"
| "chainLoop (m # rest) seen chain =
     (if \<not> truthy m \<or> the m \<in> seen then chainLoop rest seen chain
      else chainLoop rest (insert (the m) seen) (chain @ [the m]))"

text \<open>
  \<open>resolveFallbackChain\<close>. Spreading the configured chain into the array the loop runs
  over throws a \<open>TypeError\<close> when the value is not iterable.
\<close>

definition resolveFallbackChain :: "plugin_config option \<Rightarrow> string \<Rightarrow> js_error + string list" where
  "resolveFallbackChain cfg agentName =
     (case configuredChain cfg agentName of
        ChainForeign \<Rightarrow> Inl TypeError
      | ChainArray chain \<Rightarrow> Inr (chainLoop (primaryModel cfg agentName # chain) {} []))"

text \<open>
  The specification's wording of the resolver, for comparison: the primary model followed
  by the fallback sequence, null entries skipped, duplicates removed, first-seen order kept.
\<close>

definition firstSeen :: "'a list \<Rightarrow> 'a list" where
  "firstSeen xs = rev (remdups (rev xs))"

definition spec_resolve_chain :: "string option \<Rightarrow> string option list \<Rightarrow> string list" where
  "spec_resolve_chain primary chain =
     firstSeen (map the (filter (\<lambda>m. m \<noteq> None) (primary # chain)))"

text \<open>What the loop does: entries that are falsy (null or the empty string) are skipped.\<close>

definition truthy_resolve_chain :: "string option \<Rightarrow> string option list \<Rightarrow> string list" where
  "truthy_resolve_chain primary chain =
     firstSeen (map the (filter truthy (primary # chain)))"

section \<open>Prompt attempts over the fallback chain\<close>

text \<open>
  One pass of the body of the attempt loop up to the host call: \<open>Inl\<close> is the message of
  the \<open>Error\<close> thrown inside the inner \<open>try\<close>, \<open>Inr\<close> the model override of the body.
\<close>

definition attemptBody :: "string option \<Rightarrow> string + model_ref option" where
  "attemptBody m =
     (if truthy m then
        (case parseModelReference (the m) of
           None \<Rightarrow> Inl (''Invalid fallback model format: '' @ the m)
         | Some r \<Rightarrow> Inr (Some r))
      else Inr None)"

text \<open>The inner \<open>catch\<close>: the entry pushed on \<open>errors\<close>.\<close>

definition attemptError :: "string option \<Rightarrow> string \<Rightarrow> string" where
  "attemptError m msg =
     (if truthy m then the m @ '': '' @ msg else ''default-model: '' @ msg)"

text \<open>
  The loop runs without suspension until a prompt is sent or the candidates are exhausted:
  a candidate that does not parse is caught at once and the loop goes on.
\<close>

datatype attempt =
    SendPrompt "model_ref option" "string option" "string option list" "string list"
  | Exhausted "string list"

fun nextAttempt :: "string option list \<Rightarrow> string list \<Rightarrow> attempt" where
  "nextAttempt [] errors = Exhausted errors"
| "nextAttempt (m # rest) errors =
     (case attemptBody m of
        Inl msg \<Rightarrow> nextAttempt rest (errors @ [attemptError m msg])
      | Inr r \<Rightarrow> SendPrompt r m rest errors)"

definition allFailedMessage :: "string list \<Rightarrow> string" where
  "allFailedMessage errors = ''All fallback models failed. '' @ join '' | '' errors"

section \<open>Result extraction\<close>

record message_part =
  part_type :: string
  part_text :: "string option"

record session_message =
  info_role :: "string option"
  parts :: "message_part list option"

definition assistantMessages :: "session_message list \<Rightarrow> session_message list" where
  "assistantMessages messages = filter (\<lambda>m. info_role m = Some ''assistant'') messages"

definition messageTexts :: "session_message \<Rightarrow> string list" where
  "messageTexts message =
     map (\<lambda>p. the (part_text p))
       (filter (\<lambda>p. (part_type p = ''text'' \<or> part_type p = ''reasoning'') \<and> truthy (part_text p))
          (case parts message of None \<Rightarrow> [] | Some ps \<Rightarrow> ps))"

definition extractedContent :: "session_message list \<Rightarrow> string list" where
  "extractedContent messages = concat (map messageTexts (assistantMessages messages))"

definition responseText :: "session_message list \<Rightarrow> string" where
  "responseText messages =
     join [CHR 0x0A, CHR 0x0A] (filter (\<lambda>t. length t > 0) (extractedContent messages))"

definition extractedResult :: "session_message list \<Rightarrow> string" where
  "extractedResult messages =
     (if responseText messages \<noteq> [] then responseText messages else ''(No output)'')"

text \<open>
  The specification's wording, for comparison: every non-empty text or reasoning fragment
  of the assistant-authored messages, in message then part order.
\<close>

definition spec_fragments :: "session_message list \<Rightarrow> string list" where
  "spec_fragments messages =
     [t. m \<leftarrow> messages, info_role m = Some ''assistant'',
         ps \<leftarrow> (case parts m of None \<Rightarrow> [] | Some ps \<Rightarrow> [ps]),
         p \<leftarrow> ps, part_type p \<in> {''text'', ''reasoning''},
         t \<leftarrow> (case part_text p of None \<Rightarrow> [] | Some t \<Rightarrow> [t]), t \<noteq> []]"

section \<open>Tasks and the manager\<close>

datatype task_status = Pending | Starting | Running | Completed | Failed | Cancelled

text \<open>
  \<open>BackgroundTask\<close>. The field \<open>id\<close> is \<open>taskId\<close> here. The two timestamps and
  the copy of the configuration carried for observability are left out: nothing reads them.
\<close>

record BackgroundTask =
  taskId :: string
  sessionId :: "string option"
  description :: string
  agent :: string
  status :: task_status
  result :: "string option"
  error :: "string option"
  parentSessionId :: string
  prompt :: string

record LaunchOptions =
  opts_agent :: string
  opts_prompt :: string
  opts_description :: string
  opts_parentSessionId :: string

text \<open>
  The fields of \<open>PromptBody\<close> that \<open>startTask\<close> fills. The behavioural variant
  applied by \<open>applyAgentVariant\<close> is outside this file and is not modelled.
\<close>

record PromptBody =
  body_agent :: string
  body_tools :: tool_permissions
  body_text :: string
  body_model :: "model_ref option"

text \<open>Requests issued to the host client, in the order they are made.\<close>

datatype host_call =
    SessionCreate string string
  | SessionPrompt string PromptBody int
  | SessionAbort string
  | SessionMessages string
  | ParentNotification string string

text \<open>What one start keeps across its prompt attempts: the session, the base body, the timeout.\<close>

record start_ctx =
  ctx_session :: string
  ctx_body :: PromptBody
  ctx_timeoutMs :: int

text \<open>
  The asynchronous functions suspend at each \<open>await\<close>. A suspended call is a pending
  operation holding what its continuation needs: the task object (by reference) and the
  locals that are live. A timer set by \<open>waitForCompletion\<close> is pending in the same way.
\<close>

datatype pending_op =
    AwaitCreate nat
  | AwaitDelay nat string
  | AwaitPrompt nat start_ctx "string option" "string option list" "string list"
  | AwaitMessages nat
  | AwaitTimer nat string

text \<open>
  Task objects are shared by reference between the registry, the start queue and the
  suspended calls, so they live in a heap \<open>objs\<close> and are named by their index. The
  registry \<open>tasks\<close> is a JavaScript \<open>Map\<close>, kept as an association list in insertion
  order because \<open>cancel()\<close> iterates over it. \<open>outcomes\<close> records the value each
  promise returned by \<open>waitForCompletion\<close> has settled to (a task reference or null);
  a promise settles once.
\<close>

record manager =
  tasks :: "(string \<times> nat) list"
  tasksBySessionId :: "string \<rightharpoonup> string"
  agentBySessionId :: "string \<rightharpoonup> string"
  tmuxEnabled :: bool
  config :: "plugin_config option"
  startQueue :: "nat list"
  activeStarts :: int
  maxConcurrentStarts :: int
  completionResolvers :: "string \<rightharpoonup> nat"
  objs :: "BackgroundTask list"
  inflight :: "pending_op list"
  outcomes :: "nat \<rightharpoonup> nat option"
  nextWaiter :: nat
  hostCalls :: "host_call list"

definition newManager :: "bool option \<Rightarrow> plugin_config option \<Rightarrow> manager" where
  "newManager tmux cfg =
     \<lparr>tasks = [], tasksBySessionId = Map.empty, agentBySessionId = Map.empty,
      tmuxEnabled = (case tmux of None \<Rightarrow> False | Some b \<Rightarrow> b),
      config = cfg,
      startQueue = [], activeStarts = 0,
      maxConcurrentStarts =
        (case Option.bind cfg background of None \<Rightarrow> 10 | Some b \<Rightarrow> cfg_maxConcurrentStarts b),
      completionResolvers = Map.empty,
      objs = [], inflight = [], outcomes = Map.empty, nextWaiter = 0, hostCalls = []\<rparr>"

definition updateTask :: "nat \<Rightarrow> (BackgroundTask \<Rightarrow> BackgroundTask) \<Rightarrow> manager \<Rightarrow> manager" where
  "updateTask a f m = m\<lparr>objs := (objs m)[a := f (objs m ! a)]\<rparr>"

definition hostCall :: "host_call \<Rightarrow> manager \<Rightarrow> manager" where
  "hostCall c m = m\<lparr>hostCalls := hostCalls m @ [c]\<rparr>"

definition suspend :: "pending_op \<Rightarrow> manager \<Rightarrow> manager" where
  "suspend p m = m\<lparr>inflight := inflight m @ [p]\<rparr>"

definition settle :: "nat \<Rightarrow> nat option \<Rightarrow> manager \<Rightarrow> manager" where
  "settle w v m =
     (case outcomes m w of
        None \<Rightarrow> m\<lparr>outcomes := (outcomes m)(w \<mapsto> v)\<rparr>
      | Some _ \<Rightarrow> m)"

subsection \<open>Delegation checks on sessions\<close>

text \<open>
  \<open>isAgentAllowed\<close> reads \<open>length\<close> and then calls \<open>includes\<close>; on a value that is not
  an array the call throws a \<open>TypeError\<close>. \<open>getAllowedSubagents\<close> hands the value on.
\<close>

definition isAgentAllowed :: "manager \<Rightarrow> string \<Rightarrow> string \<Rightarrow> js_error + bool" where
  "isAgentAllowed m parent requestedAgent =
     (let parentAgentName =
            (case agentBySessionId m parent of None \<Rightarrow> ''orchestrator'' | Some n \<Rightarrow> n);
          allowedSubagents = getSubagentRules parentAgentName
      in case allowedSubagents of
           Roster rules \<Rightarrow>
             if length rules = 0 then Inr False else Inr (requestedAgent \<in> set rules)
         | Foreign len \<Rightarrow>
             if len = Some 0 then Inr False else Inl TypeError)"

definition getAllowedSubagents :: "manager \<Rightarrow> string \<Rightarrow> roster_value" where
  "getAllowedSubagents m parent =
     (let parentAgentName =
            (case agentBySessionId m parent of None \<Rightarrow> ''orchestrator'' | Some n \<Rightarrow> n)
      in getSubagentRules parentAgentName)"

subsection \<open>Completion\<close>

definition completionMessage :: "BackgroundTask \<Rightarrow> string" where
  "completionMessage t =
     (if status t = Completed
      then ''[Background task '' @ [CHR 0x22] @ description t @ [CHR 0x22] @ '' completed]''
      else ''[Background task '' @ [CHR 0x22] @ description t @ [CHR 0x22] @ '' failed: ''
             @ (case error t of None \<Rightarrow> ''undefined'' | Some e \<Rightarrow> e) @ '']'')"

definition dropSession :: "string \<Rightarrow> manager \<Rightarrow> manager" where
  "dropSession s m =
     m\<lparr>tasksBySessionId := (tasksBySessionId m)(s := None),
       agentBySessionId := (agentBySessionId m)(s := None)\<rparr>"

definition resolveWaiter :: "string \<Rightarrow> nat \<Rightarrow> manager \<Rightarrow> manager" where
  "resolveWaiter key a m =
     (case completionResolvers m key of
        None \<Rightarrow> m
      | Some w \<Rightarrow> (settle w (Some a) m)\<lparr>completionResolvers := (completionResolvers m)(key := None)\<rparr>)"

definition completeTask :: "nat \<Rightarrow> task_status \<Rightarrow> string \<Rightarrow> manager \<Rightarrow> manager" where
  "completeTask a st resultOrError m =
     (if status (objs m ! a) = Completed \<or> status (objs m ! a) = Failed then m
      else
        let m1 = updateTask a (\<lambda>t. t\<lparr>status := st\<rparr>) m;
            m2 = (if st = Completed
                  then updateTask a (\<lambda>t. t\<lparr>result := Some resultOrError\<rparr>) m1
                  else updateTask a (\<lambda>t. t\<lparr>error := Some resultOrError\<rparr>) m1);
            t = objs m2 ! a;
            m3 = (if truthy (sessionId t) then dropSession (the (sessionId t)) m2 else m2);
            m4 = (if truthy (sessionId t) then hostCall (SessionAbort (the (sessionId t))) m3 else m3);
            m5 = (if parentSessionId t \<noteq> []
                  then hostCall (ParentNotification (parentSessionId t) (completionMessage t)) m4
                  else m4)
        in resolveWaiter (taskId t) a m5)"

subsection \<open>The start queue\<close>

text \<open>
  \<open>startTask\<close> up to its first \<open>await\<close>. The early \<open>return\<close> stands before the
  \<open>try\<close>, so the \<open>finally\<close> block does not run on it.
\<close>

definition startTask :: "nat \<Rightarrow> manager \<Rightarrow> manager" where
  "startTask a m =
     (let m1 = updateTask a (\<lambda>t. t\<lparr>status := Starting\<rparr>) m;
          m2 = m1\<lparr>activeStarts := activeStarts m1 + 1\<rparr>
      in if status (objs m2 ! a) = Cancelled
         then completeTask a Cancelled ''Task cancelled before start'' m2
         else suspend (AwaitCreate a)
                (hostCall (SessionCreate (parentSessionId (objs m2 ! a))
                             (''Background: '' @ description (objs m2 ! a))) m2))"

lemma startQueue_updateTask: "startQueue (updateTask a f m) = startQueue m"
  by (simp add: updateTask_def)

lemma startQueue_completeTask: "startQueue (completeTask a st r m) = startQueue m"
  by (simp add: completeTask_def resolveWaiter_def settle_def hostCall_def dropSession_def
      updateTask_def Let_def split: option.splits)

lemma startQueue_startTask: "startQueue (startTask a m) = startQueue m"
  by (simp add: startTask_def Let_def startQueue_completeTask startQueue_updateTask
      suspend_def hostCall_def)

function processQueue :: "manager \<Rightarrow> manager" where
  "processQueue m =
     (if activeStarts m < maxConcurrentStarts m \<and> length (startQueue m) > 0
      then processQueue (startTask (hd (startQueue m)) (m\<lparr>startQueue := tl (startQueue m)\<rparr>))
      else m)"
  by pat_completeness auto
termination
  by (relation "measure (\<lambda>m. length (startQueue m))") (auto simp: startQueue_startTask)

declare processQueue.simps [simp del]

definition enqueueStart :: "nat \<Rightarrow> manager \<Rightarrow> manager" where
  "enqueueStart a m = processQueue (m\<lparr>startQueue := startQueue m @ [a]\<rparr>)"

definition generateTaskId :: "string \<Rightarrow> string" where
  "generateTaskId rnd = ''bg_'' @ rnd"

text \<open>\<open>launch\<close>; \<open>rnd\<close> is the random suffix drawn by \<open>generateTaskId\<close>.\<close>

definition launch :: "LaunchOptions \<Rightarrow> string \<Rightarrow> manager \<Rightarrow> nat \<times> manager" where
  "launch opts rnd m =
     (let t = \<lparr>taskId = generateTaskId rnd, sessionId = None,
               description = opts_description opts, agent = opts_agent opts,
               status = Pending, result = None, error = None,
               parentSessionId = opts_parentSessionId opts, prompt = opts_prompt opts\<rparr>;
          a = length (objs m);
          m1 = m\<lparr>objs := objs m @ [t]\<rparr>;
          m2 = m1\<lparr>tasks := AList.update (taskId t) a (tasks m1)\<rparr>
      in (a, enqueueStart a m2))"

subsection \<open>The start sequence after admission\<close>

text \<open>
  How a synchronous stretch of the \<open>try\<close> block of \<open>startTask\<close> ends: at the next
  \<open>await\<close>, by leaving the block normally, or by throwing an \<open>Error\<close>.
\<close>

datatype try_result = Suspended manager | Returned manager | Thrown string manager

text \<open>
  The \<open>message\<close> of the \<open>TypeError\<close> raised when a value that is not iterable is spread.
  The wording is the engine's own and differs between engines; this is the wording of V8.
\<close>

definition errorMessage :: "js_error \<Rightarrow> string" where
  "errorMessage e = (case e of TypeError \<Rightarrow> ''configuredChain is not iterable'')"

definition attemptLoop ::
  "nat \<Rightarrow> start_ctx \<Rightarrow> string option list \<Rightarrow> string list \<Rightarrow> manager \<Rightarrow> try_result" where
  "attemptLoop a ctx models errors m =
     (case nextAttempt models errors of
        SendPrompt r mdl rest errs \<Rightarrow>
          Suspended (suspend (AwaitPrompt a ctx mdl rest errs)
            (hostCall (SessionPrompt (ctx_session ctx) ((ctx_body ctx)\<lparr>body_model := r\<rparr>)
                         (ctx_timeoutMs ctx)) m))
      | Exhausted errs \<Rightarrow> Thrown (allFailedMessage errs) m)"

definition sendPrompts :: "nat \<Rightarrow> string \<Rightarrow> manager \<Rightarrow> try_result" where
  "sendPrompts a s m =
     (let t = objs m ! a;
          toolPermissions = calculateToolPermissions (agent t);
          basePromptBody = \<lparr>body_agent = agent t, body_tools = toolPermissions,
                            body_text = prompt t, body_model = None\<rparr>;
          fallbackEnabled =
            (case Option.bind (Option.bind (config m) fallback) enabled of
               None \<Rightarrow> True | Some b \<Rightarrow> b);
          timeout =
            (if fallbackEnabled
             then (case Option.bind (Option.bind (config m) fallback) timeoutMs of
                     None \<Rightarrow> FALLBACK_FAILOVER_TIMEOUT_MS | Some n \<Rightarrow> n)
             else 0);
          resolved = (if fallbackEnabled then resolveFallbackChain (config m) (agent t) else Inr [])
      in case resolved of
           Inl e \<Rightarrow> Thrown (errorMessage e) m
         | Inr chain \<Rightarrow>
             let attemptModels = (if length chain > 0 then map Some chain else [None])
             in attemptLoop a
                  \<lparr>ctx_session = s, ctx_body = basePromptBody, ctx_timeoutMs = timeout\<rparr>
                  attemptModels [] m)"

definition afterCreate :: "nat \<Rightarrow> string option \<Rightarrow> manager \<Rightarrow> try_result" where
  "afterCreate a sid m =
     (if \<not> truthy sid then Thrown ''Failed to create background session'' m
      else
        let s = the sid;
            m1 = updateTask a (\<lambda>t. t\<lparr>sessionId := Some s\<rparr>) m;
            m2 = m1\<lparr>tasksBySessionId := (tasksBySessionId m1)(s \<mapsto> taskId (objs m1 ! a))\<rparr>;
            m3 = m2\<lparr>agentBySessionId := (agentBySessionId m2)(s \<mapsto> agent (objs m2 ! a))\<rparr>;
            m4 = updateTask a (\<lambda>t. t\<lparr>status := Running\<rparr>) m3
        in if tmuxEnabled m4 then Suspended (suspend (AwaitDelay a s) m4)
           else sendPrompts a s m4)"

text \<open>The \<open>catch\<close> and \<open>finally\<close> blocks of \<open>startTask\<close>.\<close>

definition startFinally :: "manager \<Rightarrow> manager" where
  "startFinally m = processQueue (m\<lparr>activeStarts := activeStarts m - 1\<rparr>)"

definition startSettle :: "nat \<Rightarrow> try_result \<Rightarrow> manager" where
  "startSettle a r =
     (case r of
        Suspended m \<Rightarrow> m
      | Returned m \<Rightarrow> startFinally m
      | Thrown msg m \<Rightarrow> startFinally (completeTask a Failed msg m))"

subsection \<open>Host events\<close>

definition extractAndCompleteTask :: "nat \<Rightarrow> manager \<Rightarrow> manager" where
  "extractAndCompleteTask a m =
     (if \<not> truthy (sessionId (objs m ! a)) then m
      else suspend (AwaitMessages a) (hostCall (SessionMessages (the (sessionId (objs m ! a)))) m))"

definition handleSessionStatus ::
  "string \<Rightarrow> string option \<Rightarrow> string option \<Rightarrow> manager \<Rightarrow> manager" where
  "handleSessionStatus etype sessionID statusType m =
     (if etype \<noteq> ''session.status'' then m
      else if \<not> truthy sessionID then m
      else case tasksBySessionId m (the sessionID) of
        None \<Rightarrow> m
      | Some tid \<Rightarrow>
          if tid = [] then m
          else case map_of (tasks m) tid of
            None \<Rightarrow> m
          | Some a \<Rightarrow>
              if status (objs m ! a) \<noteq> Running then m
              else if statusType = Some ''idle'' then extractAndCompleteTask a m
              else m)"

definition extractFinish :: "nat \<Rightarrow> session_message list option \<Rightarrow> manager \<Rightarrow> manager" where
  "extractFinish a data m =
     completeTask a Completed
       (extractedResult (case data of None \<Rightarrow> [] | Some messages \<Rightarrow> messages)) m"

definition handleSessionDeleted ::
  "string \<Rightarrow> string option \<Rightarrow> string option \<Rightarrow> manager \<Rightarrow> manager" where
  "handleSessionDeleted etype infoId sessionID m =
     (if etype \<noteq> ''session.deleted'' then m
      else
        let sid = (case infoId of None \<Rightarrow> sessionID | Some i \<Rightarrow> Some i) in
        if \<not> truthy sid then m
        else case tasksBySessionId m (the sid) of
          None \<Rightarrow> m
        | Some tid \<Rightarrow>
            if tid = [] then m
            else case map_of (tasks m) tid of
              None \<Rightarrow> m
            | Some a \<Rightarrow>
                if status (objs m ! a) = Running \<or> status (objs m ! a) = Pending
                then
                  let m1 = updateTask a (\<lambda>t. t\<lparr>status := Cancelled\<rparr>) m;
                      m2 = updateTask a (\<lambda>t. t\<lparr>error := Some ''Session deleted''\<rparr>) m1;
                      m3 = dropSession (the sid) m2
                  in resolveWaiter tid a m3
                else m)"

subsection \<open>Waiting and cancelling\<close>

definition isTerminal :: "task_status \<Rightarrow> bool" where
  "isTerminal st = (st = Completed \<or> st = Failed \<or> st = Cancelled)"

definition isActive :: "task_status \<Rightarrow> bool" where
  "isActive st = (st = Pending \<or> st = Starting \<or> st = Running)"

text \<open>
  \<open>waitForCompletion\<close> returns a promise: the model returns its identity \<open>w\<close>, and
  the value it settles to is read from \<open>outcomes\<close>.
\<close>

definition waitForCompletion :: "string \<Rightarrow> int \<Rightarrow> manager \<Rightarrow> nat \<times> manager" where
  "waitForCompletion tid timeout m =
     (let w = nextWaiter m;
          m0 = m\<lparr>nextWaiter := w + 1\<rparr>
      in case map_of (tasks m0) tid of
           None \<Rightarrow> (w, settle w None m0)
         | Some a \<Rightarrow>
             if isTerminal (status (objs m0 ! a)) then (w, settle w (Some a) m0)
             else
               let m1 = m0\<lparr>completionResolvers := (completionResolvers m0)(tid \<mapsto> w)\<rparr>
               in if timeout > 0 then (w, suspend (AwaitTimer w tid) m1) else (w, m1))"

text \<open>The callback of the timer set by \<open>waitForCompletion\<close>.\<close>

definition waitTimeout :: "nat \<Rightarrow> string \<Rightarrow> manager \<Rightarrow> manager" where
  "waitTimeout w tid m =
     (let m1 = m\<lparr>completionResolvers := (completionResolvers m)(tid := None)\<rparr>
      in settle w (map_of (tasks m1) tid) m1)"

text \<open>\<open>findIndex\<close> followed by \<open>splice(idx, 1)\<close>.\<close>

fun removeFirst :: "('a \<Rightarrow> bool) \<Rightarrow> 'a list \<Rightarrow> 'a list" where
  "removeFirst P [] = []"
| "removeFirst P (x # xs) = (if P x then xs else x # removeFirst P xs)"

text \<open>The body shared by both branches of \<open>cancel\<close>, for an active task.\<close>

definition cancelTask :: "string \<Rightarrow> nat \<Rightarrow> manager \<Rightarrow> manager" where
  "cancelTask key a m =
     (let m1 = m\<lparr>completionResolvers := (completionResolvers m)(key := None)\<rparr>;
          inStartQueue = (status (objs m1 ! a) = Pending);
          m2 = updateTask a (\<lambda>t. t\<lparr>status := Cancelled\<rparr>) m1;
          m3 = (if inStartQueue
                then m2\<lparr>startQueue := removeFirst (\<lambda>b. taskId (objs m2 ! b) = key) (startQueue m2)\<rparr>
                else m2)
      in completeTask a Cancelled ''Cancelled by user'' m3)"

definition cancelEach :: "nat \<Rightarrow> int \<times> manager \<Rightarrow> int \<times> manager" where
  "cancelEach a cm =
     (if isActive (status (objs (snd cm) ! a))
      then (fst cm + 1, cancelTask (taskId (objs (snd cm) ! a)) a (snd cm))
      else cm)"

definition cancel :: "string option \<Rightarrow> manager \<Rightarrow> int \<times> manager" where
  "cancel tid m =
     (if truthy tid then
        (case map_of (tasks m) (the tid) of
           None \<Rightarrow> (0, m)
         | Some a \<Rightarrow>
             if isActive (status (objs m ! a)) then (1, cancelTask (the tid) a m) else (0, m))
      else fold cancelEach (map snd (tasks m)) (0, m))"

definition cleanup :: "manager \<Rightarrow> manager" where
  "cleanup m =
     m\<lparr>startQueue := [], completionResolvers := Map.empty, tasks := [],
       tasksBySessionId := Map.empty, agentBySessionId := Map.empty\<rparr>"

subsection \<open>The step relation\<close>

text \<open>
  What the host answers to a pending operation. \<open>Rejects\<close> is a rejected promise with
  its message; for a prompt it covers the timeout that wins the race.
\<close>

datatype host_response =
    CreateReturns "string option"
  | DelayElapsed
  | PromptReturns
  | MessagesReturn "session_message list option"
  | Rejects string
  | TimerFires

fun resumeOp :: "pending_op \<Rightarrow> host_response \<Rightarrow> manager \<Rightarrow> manager option" where
  "resumeOp (AwaitCreate a) (CreateReturns sid) m = Some (startSettle a (afterCreate a sid m))"
| "resumeOp (AwaitCreate a) (Rejects msg) m = Some (startSettle a (Thrown msg m))"
| "resumeOp (AwaitDelay a s) DelayElapsed m = Some (startSettle a (sendPrompts a s m))"
| "resumeOp (AwaitPrompt a ctx mdl rest errs) PromptReturns m = Some (startSettle a (Returned m))"
| "resumeOp (AwaitPrompt a ctx mdl rest errs) (Rejects msg) m =
     Some (startSettle a (attemptLoop a ctx rest (errs @ [attemptError mdl msg]) m))"
| "resumeOp (AwaitMessages a) (MessagesReturn data) m = Some (extractFinish a data m)"
| "resumeOp (AwaitMessages a) (Rejects msg) m = Some (completeTask a Failed msg m)"
| "resumeOp (AwaitTimer w tid) TimerFires m = Some (waitTimeout w tid m)"
| "resumeOp _ _ _ = None"

text \<open>
  The events of the single-threaded event loop: a call of the public interface, a host
  event, or the host answering the \<open>i\<close>-th pending operation. \<open>step\<close> is \<open>None\<close>
  when there is no such pending operation or the answer is not one it can get.
\<close>

datatype event =
    Launch LaunchOptions string
  | SessionStatus string "string option" "string option"
  | SessionDeleted string "string option" "string option"
  | WaitForCompletion string int
  | Cancel "string option"
  | Cleanup
  | Resume nat host_response

definition removeAt :: "nat \<Rightarrow> 'a list \<Rightarrow> 'a list" where
  "removeAt i xs = take i xs @ drop (Suc i) xs"

fun step :: "event \<Rightarrow> manager \<Rightarrow> manager option" where
  "step (Launch opts rnd) m = Some (snd (launch opts rnd m))"
| "step (SessionStatus etype sessionID statusType) m =
     Some (handleSessionStatus etype sessionID statusType m)"
| "step (SessionDeleted etype infoId sessionID) m =
     Some (handleSessionDeleted etype infoId sessionID m)"
| "step (WaitForCompletion tid timeout) m = Some (snd (waitForCompletion tid timeout m))"
| "step (Cancel tid) m = Some (snd (cancel tid m))"
| "step Cleanup m = Some (cleanup m)"
| "step (Resume i r) m =
     (if i < length (inflight m)
      then resumeOp (inflight m ! i) r (m\<lparr>inflight := removeAt i (inflight m)\<rparr>)
      else None)"

fun run :: "event list \<Rightarrow> manager \<Rightarrow> manager option" where
  "run [] m = Some m"
| "run (e # es) m = (case step e m of None \<Rightarrow> None | Some m' \<Rightarrow> run es m')"

inductive reachable :: "manager \<Rightarrow> manager \<Rightarrow> bool" for m0 :: manager where
  reachable_init: "reachable m0 m0"
| reachable_step: "reachable m0 m \<Longrightarrow> step e m = Some m' \<Longrightarrow> reachable m0 m'"




section \<open>Invariants of the event loop\<close>

text \<open>
  The task a pending operation works on, and the pending operations that belong to a
  start in flight: every \<open>startTask\<close> call that has passed its first \<open>await\<close> and
  not yet run its \<open>finally\<close> block has exactly one of them.
\<close>

fun opRef :: "pending_op \<Rightarrow> nat option" where
  "opRef (AwaitCreate a) = Some a"
| "opRef (AwaitDelay a s) = Some a"
| "opRef (AwaitPrompt a ctx mdl rest errs) = Some a"
| "opRef (AwaitMessages a) = Some a"
| "opRef (AwaitTimer w tid) = None"

fun isStartOp :: "pending_op \<Rightarrow> bool" where
  "isStartOp (AwaitCreate a) = True"
| "isStartOp (AwaitDelay a s) = True"
| "isStartOp (AwaitPrompt a ctx mdl rest errs) = True"
| "isStartOp (AwaitMessages a) = False"
| "isStartOp (AwaitTimer w tid) = False"

text \<open>The tasks whose start is in flight, and the tasks in \<open>starting\<close> status.\<close>

definition startRefs :: "pending_op list \<Rightarrow> nat list" where
  "startRefs ops = map (\<lambda>p. the (opRef p)) (filter isStartOp ops)"

definition startingTasks :: "manager \<Rightarrow> nat list" where
  "startingTasks m = filter (\<lambda>a. status (objs m ! a) = Starting) [0..<length (objs m)]"

text \<open>
  The invariant behind the concurrency ceiling: queued references are valid,
  \<open>activeStarts\<close> counts the starts in flight and never exceeds the ceiling, and a
  task in \<open>starting\<close> status is awaiting its session.
\<close>

definition admission_inv :: "manager \<Rightarrow> bool" where
  "admission_inv m \<longleftrightarrow>
     (\<forall>a\<in>set (startQueue m). a < length (objs m)) \<and>
     activeStarts m = int (length (startRefs (inflight m))) \<and>
     activeStarts m \<le> max 0 (maxConcurrentStarts m) \<and>
     (\<forall>a<length (objs m). status (objs m ! a) = Starting \<longrightarrow> AwaitCreate a \<in> set (inflight m))"

text \<open>
  The same inside a resumed start, whose own pending operation has been taken out but
  whose count is still held; \<open>x\<close> is the task that may still read \<open>starting\<close>.
\<close>

definition start_pending :: "nat option \<Rightarrow> manager \<Rightarrow> bool" where
  "start_pending x m \<longleftrightarrow>
     (\<forall>a\<in>set (startQueue m). a < length (objs m)) \<and>
     activeStarts m = int (length (startRefs (inflight m))) + 1 \<and>
     activeStarts m \<le> max 0 (maxConcurrentStarts m) \<and>
     (\<forall>a<length (objs m). status (objs m ! a) = Starting \<longrightarrow>
        x = Some a \<or> AwaitCreate a \<in> set (inflight m))"

fun admits :: "nat \<Rightarrow> try_result \<Rightarrow> bool" where
  "admits a (Suspended m) = admission_inv m"
| "admits a (Returned m) = start_pending None m"
| "admits a (Thrown msg m) = start_pending (Some a) m"

text \<open>
  Completed and failed are the two statuses \<open>completeTask\<close> guards. The second
  invariant says that queued tasks have not been started, that tasks of pending operations
  are not queued, that a task has at most one start in flight, and that a start awaiting
  its session has a task that is starting or cancelled and no extraction in flight.
\<close>

definition settled :: "task_status \<Rightarrow> bool" where
  "settled st \<longleftrightarrow> st = Completed \<or> st = Failed"

definition terminal_inv :: "manager \<Rightarrow> bool" where
  "terminal_inv m \<longleftrightarrow>
     distinct (startQueue m) \<and>
     (\<forall>a\<in>set (startQueue m). a < length (objs m) \<and>
        (status (objs m ! a) = Pending \<or> status (objs m ! a) = Cancelled)) \<and>
     (\<forall>p\<in>set (inflight m). \<forall>a. opRef p = Some a \<longrightarrow>
        a < length (objs m) \<and> a \<notin> set (startQueue m)) \<and>
     distinct (startRefs (inflight m)) \<and>
     (\<forall>a. AwaitCreate a \<in> set (inflight m) \<longrightarrow>
        (status (objs m ! a) = Starting \<or> status (objs m ! a) = Cancelled) \<and>
        AwaitMessages a \<notin> set (inflight m)) \<and>
     (\<forall>p\<in>set (tasks m). snd p < length (objs m))"

text \<open>
  \<open>keeps m m'\<close>: every task object that is completed or failed in \<open>m\<close> is the same
  object in \<open>m'\<close>.
\<close>

definition keeps :: "manager \<Rightarrow> manager \<Rightarrow> bool" where
  "keeps m m' \<longleftrightarrow>
     length (objs m) \<le> length (objs m') \<and>
     (\<forall>a<length (objs m). settled (status (objs m ! a)) \<longrightarrow> objs m' ! a = objs m ! a)"

definition good :: "manager \<Rightarrow> manager \<Rightarrow> bool" where
  "good mb m \<longleftrightarrow> terminal_inv m \<and> keeps mb m"

fun concludes :: "manager \<Rightarrow> nat \<Rightarrow> try_result \<Rightarrow> bool" where
  "concludes mb a (Suspended m) = good mb m"
| "concludes mb a (Returned m) = good mb m"
| "concludes mb a (Thrown msg m) = (good mb m \<and> a \<notin> set (startQueue m) \<and> AwaitCreate a \<notin> set (inflight m))"



section \<open>Scenarios\<close>

text \<open>Concrete options, configurations, messages and event traces used as examples.\<close>

definition bgOpts :: "string \<Rightarrow> LaunchOptions" where
  "bgOpts role =
     \<lparr>opts_agent = role, opts_prompt = ''p'', opts_description = ''d'',
      opts_parentSessionId = ''root''\<rparr>"

definition ceilingConfig :: "int \<Rightarrow> plugin_config option" where
  "ceilingConfig n =
     Some \<lparr>fallback = None, agents = None,
           background = Some \<lparr>cfg_maxConcurrentStarts = n\<rparr>\<rparr>"

definition modelConfig :: "string \<Rightarrow> string option \<Rightarrow> string option list \<Rightarrow> plugin_config option" where
  "modelConfig role primary chain =
     Some \<lparr>fallback = Some \<lparr>enabled = None, timeoutMs = None, chains = Some [role \<mapsto> chain]\<rparr>,
           agents = Some [role \<mapsto> \<lparr>model = primary\<rparr>],
           background = None\<rparr>"

definition textMessage :: "string \<Rightarrow> string \<Rightarrow> session_message" where
  "textMessage role txt =
     \<lparr>info_role = Some role, parts = Some [\<lparr>part_type = ''text'', part_text = Some txt\<rparr>]\<rparr>"

definition after :: "event list \<Rightarrow> manager \<Rightarrow> manager" where
  "after es m = (case run es m of None \<Rightarrow> m | Some m' \<Rightarrow> m')"

text \<open>A task of the given role is launched and its session \<open>s1\<close> is created.\<close>

definition sessionOf :: "string \<Rightarrow> manager" where
  "sessionOf role =
     after [Launch (bgOpts role) ''x'', Resume 0 (CreateReturns (Some ''s1''))]
       (newManager None None)"

text \<open>A task whose only configured model is \<open>badmodel\<close>, once its session exists.\<close>

definition badModelStart :: manager where
  "badModelStart =
     after [Launch (bgOpts ''oracle'') ''x'', Resume 0 (CreateReturns (Some ''s1''))]
       (newManager None (modelConfig ''oracle'' (Some ''badmodel'') []))"

text \<open>A task that has been started and is running in session \<open>s1\<close>.\<close>

definition runningTask :: manager where
  "runningTask =
     after [Launch (bgOpts ''explorer'') ''x'', Resume 0 (CreateReturns (Some ''s1'')),
            Resume 0 PromptReturns] (newManager None None)"



text \<open>A wait with a timeout of 100 ms on a task still starting; the timer fires.\<close>

definition waitTimedOut :: manager where
  "waitTimedOut =
     after [Launch (bgOpts ''explorer'') ''x'', WaitForCompletion ''bg_x'' 100, Resume 1 TimerFires]
       (newManager None None)"

text \<open>
  The running task's session goes idle, and is deleted while the message history is
  being fetched.
\<close>

definition deletedDuringExtract :: manager where
  "deletedDuringExtract =
     after [SessionStatus ''session.status'' (Some ''s1'') (Some ''idle''),
            SessionDeleted ''session.deleted'' (Some ''s1'') None] runningTask"

text \<open>A wait without timeout on a starting task, which is then cancelled.\<close>

definition cancelledWithWaiter :: manager where
  "cancelledWithWaiter =
     after [Launch (bgOpts ''explorer'') ''x'', WaitForCompletion ''bg_x'' 0, Cancel (Some ''bg_x'')]
       (newManager None None)"

text \<open>Ceiling 1 and two launches: the first task is starting, the second is queued.\<close>

definition twoLaunched :: manager where
  "twoLaunched =
     after [Launch (bgOpts ''explorer'') ''x'', Launch (bgOpts ''explorer'') ''y'']
       (newManager None (ceilingConfig 1))"

text \<open>
  Two idle events for the running task start two extractions; the first one to return
  completes the task with the result \<open>A\<close>, the second is still pending.
\<close>

definition completedTwice :: manager where
  "completedTwice =
     after [SessionStatus ''session.status'' (Some ''s1'') (Some ''idle''),
            SessionStatus ''session.status'' (Some ''s1'') (Some ''idle''),
            Resume 0 (MessagesReturn (Some [textMessage ''assistant'' ''A'']))] runningTask"

text \<open>Waits registered on a running task and on a starting task, without and with timeout.\<close>

definition waitingRunning :: manager where
  "waitingRunning = after [WaitForCompletion ''bg_x'' 0] runningTask"

definition waitingStarting :: manager where
  "waitingStarting =
     after [Launch (bgOpts ''explorer'') ''x'', WaitForCompletion ''bg_x'' 0] (newManager None None)"

definition waitingTimed :: manager where
  "waitingTimed =
     after [Launch (bgOpts ''explorer'') ''x'', WaitForCompletion ''bg_x'' 100] (newManager None None)"

section \<open>Properties of the pure functions\<close>

subsection \<open>Strings and lists\<close>

lemma indexOf_absent: "c \<notin> set s \<Longrightarrow> indexOf s c = - 1"
  by (induction s) auto

lemma indexOf_neg_iff: "indexOf s c < 0 \<longleftrightarrow> c \<notin> set s"
  by (induction s) auto

lemma indexOf_takeWhile:
  "c \<in> set s \<Longrightarrow> indexOf s c = int (length (takeWhile (\<lambda>x. x \<noteq> c) s))"
  by (induction s) (auto simp: indexOf_neg_iff)

lemma split_at_first:
  "c \<in> set s \<Longrightarrow> s = takeWhile (\<lambda>x. x \<noteq> c) s @ c # tl (dropWhile (\<lambda>x. x \<noteq> c) s)"
  by (induction s) auto

lemma join_Nil_iff: "sep \<noteq> [] \<Longrightarrow> join sep xs = [] \<longleftrightarrow> (xs = [] \<or> xs = [[]])"
  by (induction sep xs rule: join.induct) auto

lemma remdups_snoc: "remdups (ys @ [x]) = filter (\<lambda>y. y \<noteq> x) (remdups ys) @ [x]"
  by (induction ys) auto

lemma firstSeen_Nil: "firstSeen [] = []"
  by (simp add: firstSeen_def)

lemma firstSeen_Cons: "firstSeen (x # xs) = x # firstSeen (filter (\<lambda>y. y \<noteq> x) xs)"
  by (simp add: firstSeen_def remdups_snoc rev_filter remdups_filter)

subsection \<open>Parsing a model reference\<close>

text \<open>
  The separator is the first \<open>/\<close> of the string. Parsing fails exactly when there is
  none, when it is the first character, or when it is the last character.
\<close>

lemma parseModelReference_None_iff:
  "parseModelReference s = None \<longleftrightarrow>
     (CHR ''/'' \<notin> set s \<or> (\<exists>r. s = CHR ''/'' # r) \<or> (\<exists>p. s = p @ ''/'' \<and> CHR ''/'' \<notin> set p))"
proof (cases "CHR ''/'' \<in> set s")
  case False
  then show ?thesis by (simp add: parseModelReference_def indexOf_absent)
next
  case True
  define p where "p = takeWhile (\<lambda>x. x \<noteq> CHR ''/'') s"
  define r where "r = tl (dropWhile (\<lambda>x. x \<noteq> CHR ''/'') s)"
  have s: "s = p @ CHR ''/'' # r"
    unfolding p_def r_def using True by (rule split_at_first)
  have np: "CHR ''/'' \<notin> set p"
    unfolding p_def by (auto dest: set_takeWhileD)
  have i: "indexOf s (CHR ''/'') = int (length p)"
    unfolding p_def using True by (rule indexOf_takeWhile)
  have len: "int (length s) = int (length p) + 1 + int (length r)"
    by (subst s) simp
  have none: "parseModelReference s = None \<longleftrightarrow> (p = [] \<or> r = [])"
    unfolding parseModelReference_def Let_def i len by auto
  have a: "(\<exists>r'. s = CHR ''/'' # r') \<longleftrightarrow> p = []"
    using s np by (cases p) auto
  have b: "(\<exists>p'. s = p' @ ''/'' \<and> CHR ''/'' \<notin> set p') \<longleftrightarrow> r = []"
  proof
    assume "\<exists>p'. s = p' @ ''/'' \<and> CHR ''/'' \<notin> set p'"
    then obtain p' where p': "s = p' @ ''/''" "CHR ''/'' \<notin> set p'" by blast
    have "takeWhile (\<lambda>x. x \<noteq> CHR ''/'') (p' @ ''/'') = p'"
      using p'(2) by (induction p') auto
    then have "p = p'" unfolding p_def p'(1) .
    with s p'(1) show "r = []" by simp
  next
    assume "r = []"
    with s np show "\<exists>p'. s = p' @ ''/'' \<and> CHR ''/'' \<notin> set p'" by auto
  qed
  show ?thesis using none a b True by simp
qed

lemma attemptBody_unparsable:
  "parseModelReference s = None \<Longrightarrow> s \<noteq> [] \<Longrightarrow>
     attemptBody (Some s) = Inl (''Invalid fallback model format: '' @ s)"
  by (simp add: attemptBody_def truthy_def)

subsection \<open>The loop of the fallback resolver\<close>

lemma chainLoop_eq:
  "chainLoop ms seen chain =
     chain @ firstSeen (filter (\<lambda>x. x \<notin> seen) (map the (filter truthy ms)))"
proof (induction ms arbitrary: seen chain)
  case Nil
  then show ?case by (simp add: firstSeen_Nil)
next
  case (Cons m ms)
  show ?case using Cons.IH
    by (simp add: firstSeen_Cons) (auto intro!: arg_cong[where f=firstSeen] filter_cong)
qed

subsection \<open>Extraction of the response text\<close>

lemma part_fragments:
  "filter (\<lambda>t. length t > 0)
     (map (\<lambda>p. the (part_text p))
        (filter (\<lambda>p. (part_type p = ''text'' \<or> part_type p = ''reasoning'') \<and> truthy (part_text p)) ps))
   = [t. p \<leftarrow> ps, part_type p \<in> {''text'', ''reasoning''},
         t \<leftarrow> (case part_text p of None \<Rightarrow> [] | Some t \<Rightarrow> [t]), t \<noteq> []]"
  by (induction ps) (auto simp: truthy_def split: option.splits)

lemma message_fragments:
  "filter (\<lambda>t. length t > 0) (messageTexts m)
   = [t. ps \<leftarrow> (case parts m of None \<Rightarrow> [] | Some ps \<Rightarrow> [ps]),
         p \<leftarrow> ps, part_type p \<in> {''text'', ''reasoning''},
         t \<leftarrow> (case part_text p of None \<Rightarrow> [] | Some t \<Rightarrow> [t]), t \<noteq> []]"
  unfolding messageTexts_def
  by (cases "parts m")
    (simp_all only: part_fragments option.case concat.simps list.map append_Nil2 filter.simps)

lemma fragments_eq: "filter (\<lambda>t. length t > 0) (extractedContent ms) = spec_fragments ms"
proof (induction ms)
  case Nil
  show ?case by (simp add: extractedContent_def spec_fragments_def assistantMessages_def)
next
  case (Cons m ms)
  have "filter (\<lambda>t. length t > 0) (extractedContent (m # ms)) =
      (if info_role m = Some ''assistant'' then filter (\<lambda>t. length t > 0) (messageTexts m) else [])
       @ filter (\<lambda>t. length t > 0) (extractedContent ms)"
    by (simp add: extractedContent_def assistantMessages_def)
  also have "\<dots> = spec_fragments (m # ms)"
    unfolding Cons.IH message_fragments by (simp add: spec_fragments_def)
  finally show ?case .
qed

lemma fragments_nonempty: "t \<in> set (spec_fragments ms) \<Longrightarrow> t \<noteq> []"
  by (auto simp: spec_fragments_def split: if_splits)

lemma extractedResult_eq:
  "extractedResult ms =
     (if spec_fragments ms = [] then ''(No output)''
      else join [CHR 0x0A, CHR 0x0A] (spec_fragments ms))"
proof -
  have r: "responseText ms = join [CHR 0x0A, CHR 0x0A] (spec_fragments ms)"
    unfolding responseText_def fragments_eq ..
  have "spec_fragments ms \<noteq> [[]]"
    using fragments_nonempty[of "[]" ms] by auto
  then have "responseText ms = [] \<longleftrightarrow> spec_fragments ms = []"
    unfolding r by (simp add: join_Nil_iff)
  then show ?thesis
    unfolding extractedResult_def r by simp
qed

section \<open>Properties of the manager's operations\<close>

subsection \<open>Task objects under the primitive updates\<close>

lemma length_objs_updateTask [simp]: "length (objs (updateTask a f m)) = length (objs m)"
  by (simp add: updateTask_def)

lemma nth_objs_updateTask:
  "objs (updateTask a f m) ! b =
     (if b = a \<and> a < length (objs m) then f (objs m ! a) else objs m ! b)"
  by (cases "a < length (objs m)") (auto simp: updateTask_def list_update_beyond)

lemma objs_frame [simp]:
  "objs (hostCall c m) = objs m"
  "objs (suspend p m) = objs m"
  "objs (settle w v m) = objs m"
  "objs (dropSession s m) = objs m"
  "objs (resolveWaiter k a m) = objs m"
  by (simp_all add: hostCall_def suspend_def settle_def dropSession_def resolveWaiter_def
      split: option.splits)

lemma objs_completeTask:
  "objs (completeTask a st r m) =
     (if status (objs m ! a) = Completed \<or> status (objs m ! a) = Failed then objs m
      else (objs m)[a := (if st = Completed
                          then (objs m ! a)\<lparr>status := st, result := Some r\<rparr>
                          else (objs m ! a)\<lparr>status := st, error := Some r\<rparr>)])"
  by (cases "a < length (objs m)")
    (simp_all add: completeTask_def Let_def updateTask_def list_update_beyond)

section \<open>Lists of pending operations\<close>

lemma set_removeAt_subset: "set (removeAt i xs) \<subseteq> set xs"
  by (auto simp: removeAt_def dest: in_set_takeD in_set_dropD)

lemma removeAt_split: "i < length xs \<Longrightarrow> xs = take i xs @ xs ! i # drop (Suc i) xs"
  by (simp add: id_take_nth_drop)

lemma in_removeAt: "y \<in> set xs \<Longrightarrow> y \<noteq> xs ! i \<Longrightarrow> y \<in> set (removeAt i xs)"
proof (cases "i < length xs")
  case True
  assume y: "y \<in> set xs" "y \<noteq> xs ! i"
  have "set xs = set (take i xs) \<union> {xs ! i} \<union> set (drop (Suc i) xs)"
    by (subst removeAt_split [OF True]) simp
  with y show ?thesis by (auto simp: removeAt_def)
next
  case False
  assume "y \<in> set xs"
  with False show ?thesis by (simp add: removeAt_def)
qed

lemma startRefs_append [simp]: "startRefs (xs @ ys) = startRefs xs @ startRefs ys"
  by (simp add: startRefs_def)

lemma startRefs_Nil [simp]: "startRefs [] = []"
  by (simp add: startRefs_def)

lemma startRefs_single [simp]:
  "startRefs [p] = (if isStartOp p then [the (opRef p)] else [])"
  by (simp add: startRefs_def)

lemma nth_list_update_total:
  "xs[a := x] ! b = (if b = a \<and> a < length xs then x else xs ! b)"
  by (cases "a < length xs") (auto simp: list_update_beyond)

lemma startRefs_removeAt_start:
  assumes "i < length xs" and "isStartOp (xs ! i)"
  shows "startRefs xs = startRefs (take i xs) @ the (opRef (xs ! i)) # startRefs (drop (Suc i) xs)"
    and "startRefs (removeAt i xs) = startRefs (take i xs) @ startRefs (drop (Suc i) xs)"
proof -
  have "startRefs xs = startRefs (take i xs @ xs ! i # drop (Suc i) xs)"
    using removeAt_split [OF assms(1)] by simp
  then show "startRefs xs = startRefs (take i xs) @ the (opRef (xs ! i)) # startRefs (drop (Suc i) xs)"
    using assms(2) by (simp add: startRefs_def)
  show "startRefs (removeAt i xs) = startRefs (take i xs) @ startRefs (drop (Suc i) xs)"
    by (simp add: removeAt_def)
qed

lemma length_startRefs_removeAt_start:
  "i < length xs \<Longrightarrow> isStartOp (xs ! i) \<Longrightarrow>
     int (length (startRefs xs)) = int (length (startRefs (removeAt i xs))) + 1"
  by (simp add: startRefs_removeAt_start)

lemma startRefs_removeAt_other:
  assumes "i < length xs" and "\<not> isStartOp (xs ! i)"
  shows "startRefs (removeAt i xs) = startRefs xs"
proof -
  have "startRefs xs = startRefs (take i xs @ xs ! i # drop (Suc i) xs)"
    using removeAt_split [OF assms(1)] by simp
  then show ?thesis using assms(2) by (simp add: startRefs_def removeAt_def)
qed

lemma distinct_startRefs_removeAt:
  assumes "i < length xs" and "isStartOp (xs ! i)" and "distinct (startRefs xs)"
  shows "distinct (startRefs (removeAt i xs)) \<and> the (opRef (xs ! i)) \<notin> set (startRefs (removeAt i xs))"
  using assms(3) unfolding startRefs_removeAt_start [OF assms(1,2)] by auto

lemma in_startRefs: "p \<in> set ops \<Longrightarrow> isStartOp p \<Longrightarrow> the (opRef p) \<in> set (startRefs ops)"
  by (auto simp: startRefs_def)

section \<open>What the operations leave unchanged\<close>

lemma updateTask_frame [simp]:
  "startQueue (updateTask a f m) = startQueue m"
  "inflight (updateTask a f m) = inflight m"
  "activeStarts (updateTask a f m) = activeStarts m"
  "maxConcurrentStarts (updateTask a f m) = maxConcurrentStarts m"
  "tasks (updateTask a f m) = tasks m"
  "config (updateTask a f m) = config m"
  "tmuxEnabled (updateTask a f m) = tmuxEnabled m"
  by (simp_all add: updateTask_def)

lemma hostCall_frame [simp]:
  "startQueue (hostCall c m) = startQueue m"
  "inflight (hostCall c m) = inflight m"
  "activeStarts (hostCall c m) = activeStarts m"
  "maxConcurrentStarts (hostCall c m) = maxConcurrentStarts m"
  "tasks (hostCall c m) = tasks m"
  by (simp_all add: hostCall_def)

lemma suspend_frame [simp]:
  "startQueue (suspend p m) = startQueue m"
  "inflight (suspend p m) = inflight m @ [p]"
  "activeStarts (suspend p m) = activeStarts m"
  "maxConcurrentStarts (suspend p m) = maxConcurrentStarts m"
  "tasks (suspend p m) = tasks m"
  by (simp_all add: suspend_def)

lemma settle_frame [simp]:
  "startQueue (settle w v m) = startQueue m"
  "inflight (settle w v m) = inflight m"
  "activeStarts (settle w v m) = activeStarts m"
  "maxConcurrentStarts (settle w v m) = maxConcurrentStarts m"
  "tasks (settle w v m) = tasks m"
  by (simp_all add: settle_def split: option.splits)

lemma dropSession_frame [simp]:
  "startQueue (dropSession s m) = startQueue m"
  "inflight (dropSession s m) = inflight m"
  "activeStarts (dropSession s m) = activeStarts m"
  "maxConcurrentStarts (dropSession s m) = maxConcurrentStarts m"
  "tasks (dropSession s m) = tasks m"
  by (simp_all add: dropSession_def)

lemma resolveWaiter_frame [simp]:
  "startQueue (resolveWaiter k a m) = startQueue m"
  "inflight (resolveWaiter k a m) = inflight m"
  "activeStarts (resolveWaiter k a m) = activeStarts m"
  "maxConcurrentStarts (resolveWaiter k a m) = maxConcurrentStarts m"
  "tasks (resolveWaiter k a m) = tasks m"
  by (simp_all add: resolveWaiter_def split: option.splits)

lemma completeTask_frame [simp]:
  "startQueue (completeTask a st r m) = startQueue m"
  "inflight (completeTask a st r m) = inflight m"
  "activeStarts (completeTask a st r m) = activeStarts m"
  "maxConcurrentStarts (completeTask a st r m) = maxConcurrentStarts m"
  "tasks (completeTask a st r m) = tasks m"
  "length (objs (completeTask a st r m)) = length (objs m)"
  by (simp_all add: completeTask_def Let_def)

lemma status_completeTask:
  "status (objs (completeTask a st r m) ! b) =
     (if b = a \<and> a < length (objs m) \<and> status (objs m ! a) \<noteq> Completed \<and> status (objs m ! a) \<noteq> Failed
      then st else status (objs m ! b))"
  by (cases "a < length (objs m)") (auto simp: objs_completeTask list_update_beyond nth_list_update)

lemma startTask_eq:
  "a < length (objs m) \<Longrightarrow>
     startTask a m =
       suspend (AwaitCreate a)
         (hostCall (SessionCreate (parentSessionId (objs m ! a)) (''Background: '' @ description (objs m ! a)))
            ((updateTask a (\<lambda>t. t\<lparr>status := Starting\<rparr>) m)\<lparr>activeStarts := activeStarts m + 1\<rparr>))"
  by (simp add: startTask_def Let_def updateTask_def)

lemma startTask_frame:
  assumes "a < length (objs m)"
  shows "startQueue (startTask a m) = startQueue m"
    and "inflight (startTask a m) = inflight m @ [AwaitCreate a]"
    and "activeStarts (startTask a m) = activeStarts m + 1"
    and "maxConcurrentStarts (startTask a m) = maxConcurrentStarts m"
    and "tasks (startTask a m) = tasks m"
    and "length (objs (startTask a m)) = length (objs m)"
    and "status (objs (startTask a m) ! b) = (if b = a then Starting else status (objs m ! b))"
  using assms by (simp_all add: startTask_eq) (simp_all add: updateTask_def nth_list_update)

section \<open>The admission invariant\<close>

lemma admission_startTask:
  assumes "admission_inv m" and "startQueue m \<noteq> []" and "activeStarts m < maxConcurrentStarts m"
  shows "admission_inv (startTask (hd (startQueue m)) (m\<lparr>startQueue := tl (startQueue m)\<rparr>))"
proof -
  let ?a = "hd (startQueue m)"
  let ?m = "m\<lparr>startQueue := tl (startQueue m)\<rparr>"
  have a: "?a < length (objs ?m)"
    using assms(1,2) by (simp add: admission_inv_def)
  have q: "set (tl (startQueue m)) \<subseteq> set (startQueue m)"
    using assms(2) by (auto dest: list.set_sel(2))
  show ?thesis
    using assms(1,3) q
    unfolding admission_inv_def startTask_frame [OF a]
    by (auto simp: startRefs_def)
qed

lemma processQueue_admit:
  "activeStarts m < maxConcurrentStarts m \<Longrightarrow> startQueue m \<noteq> [] \<Longrightarrow>
     processQueue m =
       processQueue (startTask (hd (startQueue m)) (m\<lparr>startQueue := tl (startQueue m)\<rparr>))"
  by (subst processQueue.simps) simp

lemma processQueue_stop:
  "\<not> (activeStarts m < maxConcurrentStarts m \<and> startQueue m \<noteq> []) \<Longrightarrow> processQueue m = m"
  by (subst processQueue.simps) auto

lemma processQueue_preserves:
  assumes step: "\<And>m. I m \<Longrightarrow> activeStarts m < maxConcurrentStarts m \<Longrightarrow> startQueue m \<noteq> [] \<Longrightarrow>
      I (startTask (hd (startQueue m)) (m\<lparr>startQueue := tl (startQueue m)\<rparr>))"
    and init: "I m"
  shows "I (processQueue m)"
  using init
proof (induction m rule: processQueue.induct)
  case (1 m)
  show ?case
  proof (cases "activeStarts m < maxConcurrentStarts m \<and> startQueue m \<noteq> []")
    case True
    then have c: "activeStarts m < maxConcurrentStarts m" "startQueue m \<noteq> []" by simp_all
    have "I (startTask (hd (startQueue m)) (m\<lparr>startQueue := tl (startQueue m)\<rparr>))"
      using "1.prems" c by (rule step)
    then have "I (processQueue (startTask (hd (startQueue m)) (m\<lparr>startQueue := tl (startQueue m)\<rparr>)))"
      using c by (intro "1.IH") simp_all
    then show ?thesis by (simp only: processQueue_admit [OF c])
  next
    case False
    have "processQueue m = m" using False by (rule processQueue_stop)
    then show ?thesis using "1.prems" by simp
  qed
qed

lemma admission_processQueue: "admission_inv m \<Longrightarrow> admission_inv (processQueue m)"
  by (rule processQueue_preserves [where I = admission_inv]) (rule admission_startTask)

lemma admission_startFinally: "start_pending None m \<Longrightarrow> admission_inv (startFinally m)"
  unfolding startFinally_def
  by (rule admission_processQueue) (auto simp: start_pending_def admission_inv_def)

lemma start_pending_completeTask:
  "start_pending (Some a) m \<Longrightarrow> st \<noteq> Starting \<Longrightarrow> start_pending None (completeTask a st r m)"
  by (auto simp: start_pending_def status_completeTask)

lemma admission_completeTask:
  "admission_inv m \<Longrightarrow> st \<noteq> Starting \<Longrightarrow> admission_inv (completeTask a st r m)"
  by (auto simp: admission_inv_def status_completeTask)

lemma admission_startSettle: "admits a r \<Longrightarrow> admission_inv (startSettle a r)"
  by (cases r) (auto simp: startSettle_def intro!: admission_startFinally start_pending_completeTask)

lemma admits_attemptLoop:
  "start_pending None m \<Longrightarrow> admits a (attemptLoop a ctx models errs m)"
  by (auto simp: attemptLoop_def start_pending_def admission_inv_def split: attempt.splits)

lemma admits_sendPrompts:
  assumes "start_pending None m"
  shows "admits a (sendPrompts a s m)"
proof -
  have t: "start_pending (Some a) m"
    using assms by (simp add: start_pending_def)
  show ?thesis
    unfolding sendPrompts_def Let_def
    by (simp add: t admits_attemptLoop [OF assms] split: sum.splits)
qed

lemma admits_afterCreate:
  assumes "start_pending (Some a) m"
  shows "admits a (afterCreate a sid m)"
proof (cases "truthy sid")
  case False
  then show ?thesis using assms by (simp add: afterCreate_def)
next
  case True
  define m4 where "m4 =
    updateTask a (\<lambda>t. t\<lparr>status := Running\<rparr>)
      ((updateTask a (\<lambda>t. t\<lparr>sessionId := Some (the sid)\<rparr>) m)
        \<lparr>tasksBySessionId := (tasksBySessionId (updateTask a (\<lambda>t. t\<lparr>sessionId := Some (the sid)\<rparr>) m))
            (the sid \<mapsto> taskId (objs (updateTask a (\<lambda>t. t\<lparr>sessionId := Some (the sid)\<rparr>) m) ! a)),
          agentBySessionId := (agentBySessionId (updateTask a (\<lambda>t. t\<lparr>sessionId := Some (the sid)\<rparr>) m))
            (the sid \<mapsto> agent (objs (updateTask a (\<lambda>t. t\<lparr>sessionId := Some (the sid)\<rparr>) m) ! a))\<rparr>)"
  have p: "start_pending None m4"
    using assms unfolding m4_def start_pending_def
    by (auto simp: updateTask_def nth_list_update_total)
  have "afterCreate a sid m =
      (if tmuxEnabled m4 then Suspended (suspend (AwaitDelay a (the sid)) m4)
       else sendPrompts a (the sid) m4)"
    using True by (simp add: afterCreate_def Let_def m4_def)
  moreover have "admits a (Suspended (suspend (AwaitDelay a (the sid)) m4))"
    using p by (auto simp: start_pending_def admission_inv_def)
  ultimately show ?thesis using admits_sendPrompts [OF p] by simp
qed

lemma removal_AwaitCreate:
  assumes "admission_inv m" and "i < length (inflight m)" and "inflight m ! i = AwaitCreate a"
  shows "start_pending (Some a) (m\<lparr>inflight := removeAt i (inflight m)\<rparr>)"
proof -
  have s: "isStartOp (inflight m ! i)" using assms(3) by simp
  have "AwaitCreate b \<in> set (removeAt i (inflight m))"
    if "AwaitCreate b \<in> set (inflight m)" "b \<noteq> a" for b
    using that assms(3) by (intro in_removeAt) simp_all
  then show ?thesis
    using assms(1) length_startRefs_removeAt_start [OF assms(2) s]
    by (auto simp: admission_inv_def start_pending_def)
qed

lemma removal_other_start:
  assumes "admission_inv m" and "i < length (inflight m)" and "isStartOp (inflight m ! i)"
    and "\<forall>b. inflight m ! i \<noteq> AwaitCreate b"
  shows "start_pending None (m\<lparr>inflight := removeAt i (inflight m)\<rparr>)"
proof -
  have "AwaitCreate b \<in> set (removeAt i (inflight m))"
    if "AwaitCreate b \<in> set (inflight m)" for b
    using that assms(4) by (intro in_removeAt) (simp, metis)
  then show ?thesis
    using assms(1) length_startRefs_removeAt_start [OF assms(2,3)]
    by (auto simp: admission_inv_def start_pending_def)
qed

lemma removal_non_start:
  assumes "admission_inv m" and "i < length (inflight m)" and "\<not> isStartOp (inflight m ! i)"
  shows "admission_inv (m\<lparr>inflight := removeAt i (inflight m)\<rparr>)"
proof -
  have "AwaitCreate b \<in> set (removeAt i (inflight m))"
    if "AwaitCreate b \<in> set (inflight m)" for b
    using that assms(3) by (intro in_removeAt) (simp, metis isStartOp.simps(1))
  then show ?thesis
    using assms(1) startRefs_removeAt_other [OF assms(2,3)]
    by (auto simp: admission_inv_def)
qed

lemma admission_resume:
  assumes inv: "admission_inv m" and i: "i < length (inflight m)"
    and r: "resumeOp (inflight m ! i) r (m\<lparr>inflight := removeAt i (inflight m)\<rparr>) = Some m'"
  shows "admission_inv m'"
proof (cases "inflight m ! i")
  case (AwaitCreate a)
  note p = removal_AwaitCreate [OF inv i AwaitCreate]
  show ?thesis
    using r p unfolding AwaitCreate
    by (cases r) (auto intro!: admission_startSettle admits_afterCreate)
next
  case (AwaitDelay a s)
  then have p: "start_pending None (m\<lparr>inflight := removeAt i (inflight m)\<rparr>)"
    by (intro removal_other_start [OF inv i]) simp_all
  show ?thesis
    using r p unfolding AwaitDelay
    by (cases r) (auto intro!: admission_startSettle admits_sendPrompts)
next
  case (AwaitPrompt a ctx mdl rest errs)
  then have p: "start_pending None (m\<lparr>inflight := removeAt i (inflight m)\<rparr>)"
    by (intro removal_other_start [OF inv i]) simp_all
  show ?thesis
    using r p unfolding AwaitPrompt
    by (cases r) (auto intro!: admission_startSettle admits_attemptLoop)
next
  case (AwaitMessages a)
  then have p: "admission_inv (m\<lparr>inflight := removeAt i (inflight m)\<rparr>)"
    by (intro removal_non_start [OF inv i]) simp_all
  show ?thesis
    using r p unfolding AwaitMessages
    by (cases r) (auto simp: extractFinish_def intro!: admission_completeTask)
next
  case (AwaitTimer w tid)
  then have p: "admission_inv (m\<lparr>inflight := removeAt i (inflight m)\<rparr>)"
    by (intro removal_non_start [OF inv i]) simp_all
  show ?thesis
    using r p unfolding AwaitTimer
    by (cases r) (auto simp: waitTimeout_def Let_def admission_inv_def)
qed

subsection \<open>Case rules for the event handlers\<close>

lemma handleSessionStatus_cases:
  assumes "P m"
    and "\<And>tid a. map_of (tasks m) tid = Some a \<Longrightarrow> status (objs m ! a) = Running \<Longrightarrow>
           P (suspend (AwaitMessages a) (hostCall (SessionMessages (the (sessionId (objs m ! a)))) m))"
  shows "P (handleSessionStatus etype sid st m)"
  unfolding handleSessionStatus_def extractAndCompleteTask_def
  by (simp add: assms split: option.splits)

lemma handleSessionDeleted_cases:
  assumes "P m"
    and "\<And>tid a s. map_of (tasks m) tid = Some a \<Longrightarrow>
           status (objs m ! a) = Running \<or> status (objs m ! a) = Pending \<Longrightarrow>
           P (resolveWaiter tid a (dropSession s
               (updateTask a (\<lambda>t. t\<lparr>error := Some ''Session deleted''\<rparr>)
                 (updateTask a (\<lambda>t. t\<lparr>status := Cancelled\<rparr>) m))))"
  shows "P (handleSessionDeleted etype infoId sid m)"
  unfolding handleSessionDeleted_def Let_def
  by (simp add: assms split: option.splits)

lemma waitForCompletion_cases:
  assumes "\<And>v. P (settle (nextWaiter m) v (m\<lparr>nextWaiter := nextWaiter m + 1\<rparr>))"
    and "P (m\<lparr>nextWaiter := nextWaiter m + 1,
               completionResolvers := (completionResolvers m)(tid \<mapsto> nextWaiter m)\<rparr>)"
    and "P (suspend (AwaitTimer (nextWaiter m) tid)
             (m\<lparr>nextWaiter := nextWaiter m + 1,
                completionResolvers := (completionResolvers m)(tid \<mapsto> nextWaiter m)\<rparr>))"
  shows "P (snd (waitForCompletion tid timeout m))"
  unfolding waitForCompletion_def Let_def
  using assms by (simp split: option.splits)

subsection \<open>Every event keeps the admission invariant\<close>

lemma admission_launch: "admission_inv m \<Longrightarrow> admission_inv (snd (launch opts rnd m))"
  unfolding launch_def Let_def snd_conv enqueueStart_def
  by (rule admission_processQueue) (simp add: admission_inv_def nth_append less_Suc_eq)

lemma admission_handleSessionStatus:
  "admission_inv m \<Longrightarrow> admission_inv (handleSessionStatus etype sid st m)"
  by (rule handleSessionStatus_cases) (simp_all add: admission_inv_def)

lemma admission_handleSessionDeleted:
  "admission_inv m \<Longrightarrow> admission_inv (handleSessionDeleted etype infoId sid m)"
  by (rule handleSessionDeleted_cases) (simp_all add: admission_inv_def nth_objs_updateTask)

lemma admission_waitForCompletion:
  "admission_inv m \<Longrightarrow> admission_inv (snd (waitForCompletion tid timeout m))"
  by (rule waitForCompletion_cases) (simp_all add: admission_inv_def)

lemma set_removeFirst_subset: "set (removeFirst P xs) \<subseteq> set xs"
  by (induction xs) auto

lemma admission_cancelTask: "admission_inv m \<Longrightarrow> admission_inv (cancelTask key a m)"
  unfolding cancelTask_def Let_def
  by (rule admission_completeTask)
    (auto simp: admission_inv_def nth_objs_updateTask dest: subsetD [OF set_removeFirst_subset])

lemma admission_cancelEach: "admission_inv (snd cm) \<Longrightarrow> admission_inv (snd (cancelEach a cm))"
  by (simp add: cancelEach_def admission_cancelTask)

lemma admission_fold_cancelEach:
  "admission_inv (snd cm) \<Longrightarrow> admission_inv (snd (fold cancelEach as cm))"
  by (induction as arbitrary: cm) (simp_all add: admission_cancelEach)

lemma admission_cancel: "admission_inv m \<Longrightarrow> admission_inv (snd (cancel tid m))"
  by (simp add: cancel_def admission_cancelTask admission_fold_cancelEach split: option.splits)

lemma admission_cleanup: "admission_inv m \<Longrightarrow> admission_inv (cleanup m)"
  by (simp add: cleanup_def admission_inv_def)

lemma admission_step:
  assumes "admission_inv m" and "step e m = Some m'"
  shows "admission_inv m'"
proof (cases e)
  case (Launch opts rnd)
  then show ?thesis using assms admission_launch by auto
next
  case (SessionStatus etype sid st)
  then show ?thesis using assms admission_handleSessionStatus by auto
next
  case (SessionDeleted etype infoId sid)
  then show ?thesis using assms admission_handleSessionDeleted by auto
next
  case (WaitForCompletion tid timeout)
  then show ?thesis using assms admission_waitForCompletion by auto
next
  case (Cancel tid)
  then show ?thesis using assms admission_cancel by auto
next
  case Cleanup
  then show ?thesis using assms admission_cleanup by auto
next
  case (Resume i r)
  with assms(2) have i: "i < length (inflight m)"
    and r: "resumeOp (inflight m ! i) r (m\<lparr>inflight := removeAt i (inflight m)\<rparr>) = Some m'"
    by (simp_all split: if_splits)
  from assms(1) i r show ?thesis by (rule admission_resume)
qed

lemma admission_newManager: "admission_inv (newManager tmux cfg)"
  by (simp add: admission_inv_def newManager_def)

lemma admission_reachable:
  "reachable (newManager tmux cfg) m \<Longrightarrow> admission_inv m"
  by (induction rule: reachable.induct) (auto intro: admission_newManager admission_step)

subsection \<open>The ceiling is never written\<close>

lemma ceiling_startTask [simp]: "maxConcurrentStarts (startTask a m) = maxConcurrentStarts m"
  by (simp add: startTask_def Let_def)

lemma ceiling_processQueue [simp]: "maxConcurrentStarts (processQueue m) = maxConcurrentStarts m"
  by (rule processQueue_preserves [where I = "\<lambda>m'. maxConcurrentStarts m' = maxConcurrentStarts m"])
    simp_all

lemma ceiling_startSettle:
  "maxConcurrentStarts (startSettle a r) =
     maxConcurrentStarts (case r of Suspended m \<Rightarrow> m | Returned m \<Rightarrow> m | Thrown msg m \<Rightarrow> m)"
  by (cases r) (simp_all add: startSettle_def startFinally_def)

lemma ceiling_attemptLoop:
  "maxConcurrentStarts (case attemptLoop a ctx models errs m of
      Suspended m' \<Rightarrow> m' | Returned m' \<Rightarrow> m' | Thrown msg m' \<Rightarrow> m') = maxConcurrentStarts m"
  by (simp add: attemptLoop_def split: attempt.splits)

lemma ceiling_sendPrompts:
  "maxConcurrentStarts (case sendPrompts a s m of
      Suspended m' \<Rightarrow> m' | Returned m' \<Rightarrow> m' | Thrown msg m' \<Rightarrow> m') = maxConcurrentStarts m"
  unfolding sendPrompts_def Let_def by (simp add: ceiling_attemptLoop split: sum.splits)

lemma ceiling_afterCreate:
  "maxConcurrentStarts (case afterCreate a sid m of
      Suspended m' \<Rightarrow> m' | Returned m' \<Rightarrow> m' | Thrown msg m' \<Rightarrow> m') = maxConcurrentStarts m"
  unfolding afterCreate_def Let_def by (simp add: ceiling_sendPrompts)

lemma ceiling_resumeOp:
  "resumeOp p r m = Some m' \<Longrightarrow> maxConcurrentStarts m' = maxConcurrentStarts m"
  by (cases p; cases r)
    (auto simp: ceiling_startSettle ceiling_afterCreate ceiling_sendPrompts ceiling_attemptLoop
      extractFinish_def waitTimeout_def Let_def)

lemma ceiling_cancelTask [simp]: "maxConcurrentStarts (cancelTask key a m) = maxConcurrentStarts m"
  by (simp add: cancelTask_def Let_def)

lemma ceiling_fold_cancelEach:
  "maxConcurrentStarts (snd (fold cancelEach as cm)) = maxConcurrentStarts (snd cm)"
  by (induction as arbitrary: cm) (simp_all add: cancelEach_def)

lemma ceiling_step: "step e m = Some m' \<Longrightarrow> maxConcurrentStarts m' = maxConcurrentStarts m"
proof (cases e)
  case (Launch opts rnd)
  assume "step e m = Some m'"
  with Launch show ?thesis by (auto simp: launch_def Let_def enqueueStart_def)
next
  case (SessionStatus etype sid st)
  assume "step e m = Some m'"
  with SessionStatus show ?thesis
    by (auto intro: handleSessionStatus_cases [where P = "\<lambda>m'. maxConcurrentStarts m' = maxConcurrentStarts m"])
next
  case (SessionDeleted etype infoId sid)
  assume "step e m = Some m'"
  with SessionDeleted show ?thesis
    by (auto intro: handleSessionDeleted_cases [where P = "\<lambda>m'. maxConcurrentStarts m' = maxConcurrentStarts m"])
next
  case (WaitForCompletion tid timeout)
  assume "step e m = Some m'"
  with WaitForCompletion show ?thesis
    by (auto intro: waitForCompletion_cases [where P = "\<lambda>m'. maxConcurrentStarts m' = maxConcurrentStarts m"])
next
  case (Cancel tid)
  assume "step e m = Some m'"
  with Cancel show ?thesis
    by (auto simp: cancel_def ceiling_fold_cancelEach split: option.splits if_splits)
next
  case Cleanup
  assume "step e m = Some m'"
  with Cleanup show ?thesis by (auto simp: cleanup_def)
next
  case (Resume i r)
  assume "step e m = Some m'"
  with Resume show ?thesis by (auto dest: ceiling_resumeOp split: if_splits)
qed

lemma ceiling_reachable: "reachable m0 m \<Longrightarrow> maxConcurrentStarts m = maxConcurrentStarts m0"
  by (induction rule: reachable.induct) (auto dest: ceiling_step)

subsection \<open>Counting the tasks in starting status\<close>

lemma distinct_startingTasks: "distinct (startingTasks m)"
  by (simp add: startingTasks_def)

lemma starting_le_active:
  assumes "admission_inv m"
  shows "int (length (startingTasks m)) \<le> activeStarts m"
proof -
  have "set (startingTasks m) \<subseteq> set (startRefs (inflight m))"
  proof
    fix a assume "a \<in> set (startingTasks m)"
    then have "AwaitCreate a \<in> set (inflight m)"
      using assms by (simp add: startingTasks_def admission_inv_def)
    then show "a \<in> set (startRefs (inflight m))"
      using in_startRefs [of "AwaitCreate a"] by simp
  qed
  then have "card (set (startingTasks m)) \<le> card (set (startRefs (inflight m)))"
    by (simp add: card_mono)
  also have "\<dots> \<le> length (startRefs (inflight m))"
    by (rule card_length)
  finally have "length (startingTasks m) \<le> length (startRefs (inflight m))"
    by (simp add: distinct_card [OF distinct_startingTasks])
  then show ?thesis using assms by (simp add: admission_inv_def)
qed

lemma starting_le_ceiling:
  assumes "reachable (newManager tmux cfg) m"
  shows "int (length (startingTasks m)) \<le> max 0 (maxConcurrentStarts (newManager tmux cfg))"
proof -
  have i: "admission_inv m" using assms by (rule admission_reachable)
  have "int (length (startingTasks m)) \<le> activeStarts m" using i by (rule starting_le_active)
  also have "\<dots> \<le> max 0 (maxConcurrentStarts m)" using i by (simp add: admission_inv_def)
  finally show ?thesis using ceiling_reachable [OF assms] by simp
qed

lemma run_reachable: "run es m = Some m' \<Longrightarrow> reachable m0 m \<Longrightarrow> reachable m0 m'"
proof (induction es arbitrary: m)
  case Nil
  then show ?case by simp
next
  case (Cons e es)
  then show ?case by (auto split: option.splits intro: reachable_step)
qed

lemma after_reachable:
  assumes "(case run es m of None \<Rightarrow> False | Some m' \<Rightarrow> True)" and "reachable m0 m"
  shows "reachable m0 (after es m)"
proof -
  from assms(1) obtain m' where r: "run es m = Some m'" by (auto split: option.splits)
  then have "after es m = m'" by (simp add: after_def)
  with run_reachable [OF r assms(2)] show ?thesis by simp
qed

section \<open>Admission respects the ceiling: C5\<close>

text \<open>
  C5. With a ceiling \<open>N \<ge> 0\<close>, in every state reachable from a new manager at most
  \<open>N\<close> task objects are in \<open>starting\<close> status. When \<open>N\<close> tasks are starting and a
  step puts a further task into \<open>starting\<close>, one of those \<open>N\<close> has left
  \<open>starting\<close> in that step: the next task is admitted only after a slot is free.
\<close>

theorem starting_within_ceiling:
  assumes "reachable (newManager tmux cfg) m"
    and "0 \<le> maxConcurrentStarts (newManager tmux cfg)"
  shows "int (length (startingTasks m)) \<le> maxConcurrentStarts (newManager tmux cfg) \<and>
         (\<forall>e m' b. step e m = Some m' \<longrightarrow>
            int (length (startingTasks m)) = maxConcurrentStarts (newManager tmux cfg) \<longrightarrow>
            b \<in> set (startingTasks m') \<longrightarrow> b \<notin> set (startingTasks m) \<longrightarrow>
            (\<exists>a. a \<in> set (startingTasks m) \<and> a \<notin> set (startingTasks m')))"
proof (intro conjI allI impI)
  show "int (length (startingTasks m)) \<le> maxConcurrentStarts (newManager tmux cfg)"
    using starting_le_ceiling [OF assms(1)] assms(2) by simp
next
  fix e m' b
  assume s: "step e m = Some m'"
    and full: "int (length (startingTasks m)) = maxConcurrentStarts (newManager tmux cfg)"
    and b: "b \<in> set (startingTasks m')" "b \<notin> set (startingTasks m)"
  have "reachable (newManager tmux cfg) m'"
    using assms(1) s by (rule reachable_step)
  then have le: "length (startingTasks m') \<le> length (startingTasks m)"
    using starting_le_ceiling [of tmux cfg m'] assms(2) full by simp
  show "\<exists>a. a \<in> set (startingTasks m) \<and> a \<notin> set (startingTasks m')"
  proof (rule ccontr)
    assume "\<not> (\<exists>a. a \<in> set (startingTasks m) \<and> a \<notin> set (startingTasks m'))"
    then have "insert b (set (startingTasks m)) \<subseteq> set (startingTasks m')"
      using b(1) by auto
    then have "card (insert b (set (startingTasks m))) \<le> card (set (startingTasks m'))"
      by (simp add: card_mono)
    then have "Suc (length (startingTasks m)) \<le> length (startingTasks m')"
      using b(2) by (simp add: distinct_card [OF distinct_startingTasks])
    with le show False by simp
  qed
qed

text \<open>
  Ceiling 1: the second task stays queued while the first is starting and while its
  prompt is in flight, and becomes \<open>starting\<close> when the first start ends.
\<close>

theorem starting_within_ceiling_witness:
  "0 \<le> maxConcurrentStarts (newManager None (ceilingConfig 1)) \<and>
   int (length (startingTasks twoLaunched)) \<le> maxConcurrentStarts (newManager None (ceilingConfig 1)) \<and>
   startingTasks twoLaunched = [0] \<and>
   startQueue twoLaunched = [1] \<and>
   startingTasks (after [Resume 0 (CreateReturns (Some ''s1''))] twoLaunched) = [] \<and>
   startingTasks (after [Resume 0 (CreateReturns (Some ''s1'')), Resume 0 PromptReturns] twoLaunched) = [1]"
proof -
  have r: "case run [Launch (bgOpts ''explorer'') ''x'', Launch (bgOpts ''explorer'') ''y'']
             (newManager None (ceilingConfig 1)) of None \<Rightarrow> False | Some m' \<Rightarrow> True"
    by code_simp
  have reach: "reachable (newManager None (ceilingConfig 1)) twoLaunched"
    unfolding twoLaunched_def using r reachable_init by (rule after_reachable)
  have c: "0 \<le> maxConcurrentStarts (newManager None (ceilingConfig 1))"
    by (simp add: newManager_def ceilingConfig_def)
  have e: "startingTasks twoLaunched = [0]" "startQueue twoLaunched = [1]"
    "startingTasks (after [Resume 0 (CreateReturns (Some ''s1''))] twoLaunched) = []"
    "startingTasks (after [Resume 0 (CreateReturns (Some ''s1'')), Resume 0 PromptReturns] twoLaunched) = [1]"
    by code_simp+
  from starting_within_ceiling [OF reach c] c e show ?thesis by blast
qed

section \<open>Terminal states\<close>

lemma keeps_refl [simp]: "keeps m m"
  by (simp add: keeps_def)

lemma keeps_trans: "keeps m m' \<Longrightarrow> keeps m' m'' \<Longrightarrow> keeps m m''"
  by (auto simp: keeps_def)

lemma keeps_updateTask:
  "a < length (objs m) \<longrightarrow> \<not> settled (status (objs m ! a)) \<Longrightarrow> keeps m (updateTask a f m)"
  by (auto simp: keeps_def nth_objs_updateTask)

lemma keeps_completeTask: "keeps m (completeTask a st r m)"
  by (auto simp: keeps_def settled_def objs_completeTask nth_list_update_total)

lemma startRefs_opRef: "a \<in> set (startRefs ops) \<Longrightarrow> \<exists>p\<in>set ops. opRef p = Some a"
proof -
  assume "a \<in> set (startRefs ops)"
  then obtain p where h: "p \<in> set ops" "isStartOp p" "a = the (opRef p)"
    by (auto simp: startRefs_def)
  from h(2,3) have "opRef p = Some a" by (cases p) simp_all
  with h(1) show ?thesis by blast
qed

lemma AwaitCreate_startRefs: "AwaitCreate a \<in> set ops \<Longrightarrow> a \<in> set (startRefs ops)"
  using in_startRefs [of "AwaitCreate a" ops] by simp

lemma terminal_completeTask:
  assumes "terminal_inv m"
    and "st = Cancelled \<or> (a \<notin> set (startQueue m) \<and> AwaitCreate a \<notin> set (inflight m))"
  shows "terminal_inv (completeTask a st r m)"
  using assms unfolding terminal_inv_def
  by (simp add: status_completeTask) blast

lemma good_completeTask:
  "good mb m \<Longrightarrow> st = Cancelled \<or> (a \<notin> set (startQueue m) \<and> AwaitCreate a \<notin> set (inflight m)) \<Longrightarrow>
     good mb (completeTask a st r m)"
  unfolding good_def
  by (auto intro: terminal_completeTask keeps_trans [OF _ keeps_completeTask])

lemma terminal_startTask:
  assumes "terminal_inv m" and "startQueue m \<noteq> []"
  shows "terminal_inv (startTask (hd (startQueue m)) (m\<lparr>startQueue := tl (startQueue m)\<rparr>))"
proof -
  obtain a q where q: "startQueue m = a # q" using assms(2) by (cases "startQueue m") auto
  have a: "a < length (objs (m\<lparr>startQueue := q\<rparr>))"
    using assms(1) q by (simp add: terminal_inv_def)
  have nr: "a \<notin> set (startRefs (inflight m))"
    using assms(1) q startRefs_opRef [of a "inflight m"] by (auto simp: terminal_inv_def)
  have nm: "AwaitMessages a \<notin> set (inflight m)"
    using assms(1) q by (force simp: terminal_inv_def)
  have nc: "AwaitCreate b \<in> set (inflight m) \<Longrightarrow> b \<noteq> a" for b
    using nr AwaitCreate_startRefs by blast
  show ?thesis
    using assms(1) nr nm nc unfolding q terminal_inv_def list.sel startTask_frame [OF a]
    by simp blast
qed

lemma keeps_startTask:
  assumes "terminal_inv m" and "startQueue m \<noteq> []"
  shows "keeps m (startTask (hd (startQueue m)) (m\<lparr>startQueue := tl (startQueue m)\<rparr>))"
proof -
  obtain a q where q: "startQueue m = a # q" using assms(2) by (cases "startQueue m") auto
  have a: "a < length (objs (m\<lparr>startQueue := q\<rparr>))" "\<not> settled (status (objs m ! a))"
    using assms(1) q by (auto simp: terminal_inv_def settled_def)
  have "keeps (m\<lparr>startQueue := q\<rparr>) (startTask a (m\<lparr>startQueue := q\<rparr>))"
    unfolding startTask_eq [OF a(1)] using a(2)
    by (auto simp: keeps_def updateTask_def nth_list_update_total)
  then show ?thesis unfolding q by (simp add: keeps_def)
qed

lemma good_processQueue: "good mb m \<Longrightarrow> good mb (processQueue m)"
proof (rule processQueue_preserves [where I = "good mb"])
  fix m assume g: "good mb m" and ne: "startQueue m \<noteq> []"
  from g have t: "terminal_inv m" and k: "keeps mb m" by (simp_all add: good_def)
  show "good mb (startTask (hd (startQueue m)) (m\<lparr>startQueue := tl (startQueue m)\<rparr>))"
    unfolding good_def
    using terminal_startTask [OF t ne] keeps_trans [OF k keeps_startTask [OF t ne]] by simp
qed

lemma good_activeStarts: "good mb m \<Longrightarrow> good mb (m\<lparr>activeStarts := n\<rparr>)"
  by (simp add: good_def terminal_inv_def keeps_def)

lemma good_startFinally: "good mb m \<Longrightarrow> good mb (startFinally m)"
  unfolding startFinally_def by (intro good_processQueue good_activeStarts)

lemma good_startSettle: "concludes mb a r \<Longrightarrow> good mb (startSettle a r)"
  by (cases r) (auto simp: startSettle_def intro!: good_startFinally good_completeTask)

lemma good_suspend_start:
  assumes "good mb m" and "isStartOp p" and "opRef p = Some a" and "\<forall>b. p \<noteq> AwaitCreate b"
    and "a < length (objs m)" and "a \<notin> set (startQueue m)" and "a \<notin> set (startRefs (inflight m))"
  shows "good mb (suspend p m)"
proof -
  have np: "AwaitMessages b \<noteq> p" "AwaitCreate b \<noteq> p" for b
    using assms(2,4) by auto
  show ?thesis
    using assms(1,3,5,6,7) unfolding good_def terminal_inv_def keeps_def
    by (auto simp: np)
qed

lemma good_hostCall: "good mb m \<Longrightarrow> good mb (hostCall c m)"
  by (simp add: good_def terminal_inv_def keeps_def)

lemma concludes_attemptLoop:
  assumes "good mb m" and "a < length (objs m)" and "a \<notin> set (startQueue m)"
    and "a \<notin> set (startRefs (inflight m))"
  shows "concludes mb a (attemptLoop a ctx models errs m)"
proof (cases "nextAttempt models errs")
  case (SendPrompt r mdl rest errs')
  have "good mb (suspend (AwaitPrompt a ctx mdl rest errs')
      (hostCall (SessionPrompt (ctx_session ctx) ((ctx_body ctx)\<lparr>body_model := r\<rparr>) (ctx_timeoutMs ctx)) m))"
    using assms by (intro good_suspend_start [where a = a] good_hostCall) simp_all
  then show ?thesis by (simp add: attemptLoop_def SendPrompt)
next
  case (Exhausted errs')
  then show ?thesis
    using assms AwaitCreate_startRefs [of a "inflight m"] by (auto simp: attemptLoop_def)
qed

lemma concludes_sendPrompts:
  assumes "good mb m" and "a < length (objs m)" and "a \<notin> set (startQueue m)"
    and "a \<notin> set (startRefs (inflight m))"
  shows "concludes mb a (sendPrompts a s m)"
proof -
  have t: "good mb m \<and> a \<notin> set (startQueue m) \<and> AwaitCreate a \<notin> set (inflight m)"
    using assms AwaitCreate_startRefs [of a "inflight m"] by auto
  show ?thesis
    unfolding sendPrompts_def Let_def
    by (simp add: t concludes_attemptLoop [OF assms] split: sum.splits)
qed

lemma good_update_open:
  assumes "good mb m" and "a \<notin> set (startQueue m)" and "a \<notin> set (startRefs (inflight m))"
    and "a < length (objs m) \<longrightarrow> \<not> settled (status (objs m ! a))"
  shows "good mb (updateTask a f m)"
proof -
  have c: "AwaitCreate b \<in> set (inflight m) \<Longrightarrow> b \<noteq> a" for b
    using assms(3) AwaitCreate_startRefs by blast
  have "terminal_inv (updateTask a f m)"
    using assms(1,2) c unfolding good_def terminal_inv_def
    by (simp add: nth_objs_updateTask)
  moreover have "keeps mb (updateTask a f m)"
    using assms(1) keeps_updateTask [OF assms(4)] by (auto simp: good_def intro: keeps_trans)
  ultimately show ?thesis by (simp add: good_def)
qed

lemma good_session_maps:
  "good mb m \<Longrightarrow> good mb (m\<lparr>tasksBySessionId := x\<rparr>)"
  "good mb m \<Longrightarrow> good mb (m\<lparr>agentBySessionId := y\<rparr>)"
  by (simp_all add: good_def terminal_inv_def keeps_def)

lemma concludes_afterCreate:
  assumes "good mb m" and "a < length (objs m)" and "a \<notin> set (startQueue m)"
    and "a \<notin> set (startRefs (inflight m))" and "\<not> settled (status (objs m ! a))"
  shows "concludes mb a (afterCreate a sid m)"
proof (cases "truthy sid")
  case False
  then show ?thesis
    using assms AwaitCreate_startRefs [of a "inflight m"] by (auto simp: afterCreate_def)
next
  case True
  define m1 where "m1 = updateTask a (\<lambda>t. t\<lparr>sessionId := Some (the sid)\<rparr>) m"
  define m3 where "m3 = m1\<lparr>tasksBySessionId := (tasksBySessionId m1)(the sid \<mapsto> taskId (objs m1 ! a)),
                           agentBySessionId := (agentBySessionId m1)(the sid \<mapsto> agent (objs m1 ! a))\<rparr>"
  define m4 where "m4 = updateTask a (\<lambda>t. t\<lparr>status := Running\<rparr>) m3"
  have g1: "good mb m1"
    unfolding m1_def using assms by (intro good_update_open) simp_all
  have g3: "good mb m3"
    unfolding m3_def using g1 by (intro good_session_maps)
  have s3: "\<not> settled (status (objs m3 ! a))"
    using assms(2,5) by (simp add: m3_def m1_def nth_objs_updateTask)
  have f3: "startQueue m3 = startQueue m" "inflight m3 = inflight m" "length (objs m3) = length (objs m)"
    by (simp_all add: m3_def m1_def)
  have g4: "good mb m4"
    unfolding m4_def using g3 assms s3 by (intro good_update_open) (simp_all add: f3)
  have f4: "startQueue m4 = startQueue m" "inflight m4 = inflight m" "length (objs m4) = length (objs m)"
    by (simp_all add: m4_def f3)
  have e: "afterCreate a sid m =
      (if tmuxEnabled m4 then Suspended (suspend (AwaitDelay a (the sid)) m4)
       else sendPrompts a (the sid) m4)"
    using True by (simp add: afterCreate_def Let_def m4_def m3_def m1_def)
  have "good mb (suspend (AwaitDelay a (the sid)) m4)"
    using g4 assms by (intro good_suspend_start [where a = a]) (simp_all add: f4)
  moreover have "concludes mb a (sendPrompts a (the sid) m4)"
    using g4 assms by (intro concludes_sendPrompts) (simp_all add: f4)
  ultimately show ?thesis unfolding e by simp
qed

lemma terminal_inv_shrink:
  assumes "terminal_inv m" and "set ops \<subseteq> set (inflight m)" and "distinct (startRefs ops)"
  shows "terminal_inv (m\<lparr>inflight := ops\<rparr>)"
  using assms unfolding terminal_inv_def by (simp add: subset_iff) blast

lemma good_removeAt:
  assumes "good mb m" and "i < length (inflight m)"
  shows "good mb (m\<lparr>inflight := removeAt i (inflight m)\<rparr>)"
proof -
  have d: "distinct (startRefs (removeAt i (inflight m)))"
  proof (cases "isStartOp (inflight m ! i)")
    case True
    then show ?thesis
      using assms distinct_startRefs_removeAt [OF assms(2) True]
      by (simp add: good_def terminal_inv_def)
  next
    case False
    then show ?thesis
      using assms startRefs_removeAt_other [OF assms(2) False]
      by (simp add: good_def terminal_inv_def)
  qed
  have "terminal_inv (m\<lparr>inflight := removeAt i (inflight m)\<rparr>)"
    using assms(1) set_removeAt_subset d unfolding good_def by (intro terminal_inv_shrink) simp_all
  then show ?thesis
    using assms(1) by (simp add: good_def keeps_def)
qed

lemma open_after_removal:
  assumes "good mb m" and "i < length (inflight m)" and "isStartOp (inflight m ! i)"
    and "opRef (inflight m ! i) = Some a"
  shows "a < length (objs m)" and "a \<notin> set (startQueue m)"
    and "a \<notin> set (startRefs (removeAt i (inflight m)))"
proof -
  have "inflight m ! i \<in> set (inflight m)" using assms(2) by simp
  then show "a < length (objs m)" "a \<notin> set (startQueue m)"
    using assms(1,4) by (auto simp: good_def terminal_inv_def)
  have "distinct (startRefs (inflight m))"
    using assms(1) by (simp add: good_def terminal_inv_def)
  then show "a \<notin> set (startRefs (removeAt i (inflight m)))"
    using distinct_startRefs_removeAt [OF assms(2,3)] assms(4) by simp
qed

lemma good_same_view:
  assumes "good mb m" and "startQueue m' = startQueue m" and "inflight m' = inflight m"
    and "tasks m' = tasks m" and "objs m' = objs m"
  shows "good mb m'"
  using assms by (simp add: good_def terminal_inv_def keeps_def)

lemma good_waitTimeout: "good mb m \<Longrightarrow> good mb (waitTimeout w tid m)"
  by (erule good_same_view) (simp_all add: waitTimeout_def Let_def)

lemma resumeOp_cases:
  assumes "resumeOp p r m = Some m'"
  obtains (create) a sid where "p = AwaitCreate a" "m' = startSettle a (afterCreate a sid m)"
    | (create_fails) a msg where "p = AwaitCreate a" "m' = startSettle a (Thrown msg m)"
    | (delay) a s where "p = AwaitDelay a s" "m' = startSettle a (sendPrompts a s m)"
    | (prompt) a ctx mdl rest errs where "p = AwaitPrompt a ctx mdl rest errs"
        "m' = startSettle a (Returned m)"
    | (prompt_fails) a ctx mdl rest errs msg where "p = AwaitPrompt a ctx mdl rest errs"
        "m' = startSettle a (attemptLoop a ctx rest (errs @ [attemptError mdl msg]) m)"
    | (messages) a data where "p = AwaitMessages a" "m' = extractFinish a data m"
    | (messages_fail) a msg where "p = AwaitMessages a" "m' = completeTask a Failed msg m"
    | (timer) w tid where "p = AwaitTimer w tid" "m' = waitTimeout w tid m"
  using assms by (cases p; cases r) auto

lemma good_resume:
  assumes g: "good mb m" and i: "i < length (inflight m)"
    and r: "resumeOp (inflight m ! i) r (m\<lparr>inflight := removeAt i (inflight m)\<rparr>) = Some m'"
  shows "good mb m'"
proof -
  let ?m0 = "m\<lparr>inflight := removeAt i (inflight m)\<rparr>"
  note g0 = good_removeAt [OF g i]
  have mem: "inflight m ! i \<in> set (inflight m)" using i by simp
  have start: "a < length (objs ?m0) \<and> a \<notin> set (startQueue ?m0) \<and> a \<notin> set (startRefs (inflight ?m0))"
    if "isStartOp (inflight m ! i)" "opRef (inflight m ! i) = Some a" for a
    using open_after_removal [OF g i that] by simp
  from r show ?thesis
  proof (cases rule: resumeOp_cases)
    case (create a sid)
    have o: "a < length (objs ?m0)" "a \<notin> set (startQueue ?m0)" "a \<notin> set (startRefs (inflight ?m0))"
      using start [of a] create(1) by simp_all
    have u: "\<not> settled (status (objs ?m0 ! a))"
      using g mem unfolding create(1) by (auto simp: good_def terminal_inv_def settled_def)
    have "concludes mb a (afterCreate a sid ?m0)"
      using g0 o u by (rule concludes_afterCreate)
    then show ?thesis unfolding create(2) by (rule good_startSettle)
  next
    case (create_fails a msg)
    have o: "a < length (objs ?m0)" "a \<notin> set (startQueue ?m0)" "a \<notin> set (startRefs (inflight ?m0))"
      using start [of a] create_fails(1) by simp_all
    have "AwaitCreate a \<notin> set (inflight ?m0)"
      using o(3) AwaitCreate_startRefs by blast
    then have "concludes mb a (Thrown msg ?m0)"
      using g0 o(2) by simp
    then show ?thesis unfolding create_fails(2) by (rule good_startSettle)
  next
    case (delay a s)
    have o: "a < length (objs ?m0)" "a \<notin> set (startQueue ?m0)" "a \<notin> set (startRefs (inflight ?m0))"
      using start [of a] delay(1) by simp_all
    have "concludes mb a (sendPrompts a s ?m0)"
      using g0 o by (rule concludes_sendPrompts)
    then show ?thesis unfolding delay(2) by (rule good_startSettle)
  next
    case (prompt a ctx mdl rest errs)
    have "concludes mb a (Returned ?m0)"
      using g0 by simp
    then show ?thesis unfolding prompt(2) by (rule good_startSettle)
  next
    case (prompt_fails a ctx mdl rest errs msg)
    have o: "a < length (objs ?m0)" "a \<notin> set (startQueue ?m0)" "a \<notin> set (startRefs (inflight ?m0))"
      using start [of a] prompt_fails(1) by simp_all
    have "concludes mb a (attemptLoop a ctx rest (errs @ [attemptError mdl msg]) ?m0)"
      using g0 o by (rule concludes_attemptLoop)
    then show ?thesis unfolding prompt_fails(2) by (rule good_startSettle)
  next
    case (messages a data)
    have q: "a \<notin> set (startQueue m)" "AwaitCreate a \<notin> set (inflight m)"
      using g mem unfolding messages(1) by (auto simp: good_def terminal_inv_def)
    then have "AwaitCreate a \<notin> set (removeAt i (inflight m))"
      using set_removeAt_subset [of i "inflight m"] by blast
    then show ?thesis
      unfolding messages(2) extractFinish_def using g0 q(1) by (intro good_completeTask) simp_all
  next
    case (messages_fail a msg)
    have q: "a \<notin> set (startQueue m)" "AwaitCreate a \<notin> set (inflight m)"
      using g mem unfolding messages_fail(1) by (auto simp: good_def terminal_inv_def)
    then have "AwaitCreate a \<notin> set (removeAt i (inflight m))"
      using set_removeAt_subset [of i "inflight m"] by blast
    then show ?thesis
      unfolding messages_fail(2) using g0 q(1) by (intro good_completeTask) simp_all
  next
    case (timer w tid)
    show ?thesis
      unfolding timer(2) using g0 by (rule good_waitTimeout)
  qed
qed

subsection \<open>Every event keeps completed and failed tasks\<close>

lemma set_update_snd: "p \<in> set (AList.update k v al) \<Longrightarrow> snd p = v \<or> p \<in> set al"
  by (induction al) (auto split: if_splits)

lemma distinct_removeFirst: "distinct xs \<Longrightarrow> distinct (removeFirst P xs)"
  by (induction xs) (auto dest: subsetD [OF set_removeFirst_subset])

lemma good_suspend_other:
  assumes "good mb m" and "\<not> isStartOp p"
    and "\<And>a. opRef p = Some a \<Longrightarrow>
           a < length (objs m) \<and> a \<notin> set (startQueue m) \<and> AwaitCreate a \<notin> set (inflight m)"
  shows "good mb (suspend p m)"
proof -
  have np: "AwaitCreate b \<noteq> p" for b using assms(2) by auto
  have nm: "AwaitCreate a \<notin> set (inflight m)" if "p = AwaitMessages a" for a
    using assms(3) [of a] that by simp
  show ?thesis
    using assms unfolding good_def terminal_inv_def keeps_def
    by (auto simp: np nm)
qed

lemma good_launch: "good mb m \<Longrightarrow> good mb (snd (launch opts rnd m))"
proof -
  assume g: "good mb m"
  let ?t = "\<lparr>taskId = generateTaskId rnd, sessionId = None,
             description = opts_description opts, agent = opts_agent opts,
             status = Pending, result = None, error = None,
             parentSessionId = opts_parentSessionId opts, prompt = opts_prompt opts\<rparr>"
  let ?a = "length (objs m)"
  let ?m = "m\<lparr>objs := objs m @ [?t], tasks := AList.update (taskId ?t) ?a (tasks m),
              startQueue := startQueue m @ [?a]\<rparr>"
  from g have t: "terminal_inv m" and k: "keeps mb m" by (simp_all add: good_def)
  have q: "b \<in> set (startQueue m) \<Longrightarrow> b < length (objs m)" for b
    using t by (simp add: terminal_inv_def)
  have o: "p \<in> set (inflight m) \<Longrightarrow> opRef p = Some b \<Longrightarrow> b < length (objs m)" for p b
    using t unfolding terminal_inv_def by blast
  have c: "AwaitCreate b \<in> set (inflight m) \<Longrightarrow> b < length (objs m)" for b
    using o [of "AwaitCreate b" b] by simp
  have r: "p \<in> set (AList.update (generateTaskId rnd) ?a (tasks m)) \<Longrightarrow>
      snd p < Suc (length (objs m))" for p
    using t set_update_snd [of p "generateTaskId rnd" ?a "tasks m"]
    unfolding terminal_inv_def by (auto simp: less_Suc_eq)
  have "terminal_inv ?m"
    unfolding terminal_inv_def
  proof (intro conjI)
    show "distinct (startQueue ?m)" using t q by (auto simp: terminal_inv_def)
    show "\<forall>a\<in>set (startQueue ?m). a < length (objs ?m) \<and>
        (status (objs ?m ! a) = Pending \<or> status (objs ?m ! a) = Cancelled)"
      using t by (auto simp: terminal_inv_def nth_append less_Suc_eq)
    show "\<forall>p\<in>set (inflight ?m). \<forall>a. opRef p = Some a \<longrightarrow>
        a < length (objs ?m) \<and> a \<notin> set (startQueue ?m)"
      using t o unfolding terminal_inv_def by (simp add: less_Suc_eq) blast
    show "distinct (startRefs (inflight ?m))" using t by (simp add: terminal_inv_def)
    show "\<forall>a. AwaitCreate a \<in> set (inflight ?m) \<longrightarrow>
        (status (objs ?m ! a) = Starting \<or> status (objs ?m ! a) = Cancelled) \<and>
        AwaitMessages a \<notin> set (inflight ?m)"
      using t c by (auto simp: terminal_inv_def nth_append)
    show "\<forall>p\<in>set (tasks ?m). snd p < length (objs ?m)"
      using r by simp
  qed
  moreover have "keeps mb ?m"
    using k by (auto simp: keeps_def nth_append)
  ultimately have "good mb ?m" by (simp add: good_def)
  then have "good mb (processQueue ?m)" by (rule good_processQueue)
  then show ?thesis by (simp add: launch_def Let_def enqueueStart_def)
qed

lemma registry_ref: "terminal_inv m \<Longrightarrow> map_of (tasks m) tid = Some a \<Longrightarrow> a < length (objs m)"
proof -
  assume t: "terminal_inv m" and "map_of (tasks m) tid = Some a"
  then have "(tid, a) \<in> set (tasks m)" by (simp add: map_of_SomeD)
  with t show ?thesis unfolding terminal_inv_def by fastforce
qed

lemma good_handleSessionStatus: "good mb m \<Longrightarrow> good mb (handleSessionStatus etype sid st m)"
proof (rule handleSessionStatus_cases)
  fix tid a
  assume g: "good mb m" and r: "map_of (tasks m) tid = Some a" and s: "status (objs m ! a) = Running"
  from g have t: "terminal_inv m" by (simp add: good_def)
  have "a < length (objs m)" using t r by (rule registry_ref)
  moreover have "a \<notin> set (startQueue m)" "AwaitCreate a \<notin> set (inflight m)"
    using t s by (auto simp: terminal_inv_def)
  ultimately show "good mb (suspend (AwaitMessages a)
      (hostCall (SessionMessages (the (sessionId (objs m ! a)))) m))"
    using g by (intro good_suspend_other good_hostCall) simp_all
qed

lemma good_mark_cancelled:
  assumes "good mb m" and "a < length (objs m) \<longrightarrow> \<not> settled (status (objs m ! a))"
  shows "good mb (updateTask a (\<lambda>t. t\<lparr>status := Cancelled\<rparr>) m)"
proof -
  have "terminal_inv (updateTask a (\<lambda>t. t\<lparr>status := Cancelled\<rparr>) m)"
    using assms(1) unfolding good_def terminal_inv_def
    by (simp add: nth_objs_updateTask)
  moreover have "keeps mb (updateTask a (\<lambda>t. t\<lparr>status := Cancelled\<rparr>) m)"
    using assms(1) keeps_updateTask [OF assms(2)] by (auto simp: good_def intro: keeps_trans)
  ultimately show ?thesis by (simp add: good_def)
qed

lemma good_set_error:
  assumes "good mb m" and "a < length (objs m) \<longrightarrow> \<not> settled (status (objs m ! a))"
  shows "good mb (updateTask a (\<lambda>t. t\<lparr>error := e\<rparr>) m)"
proof -
  have "terminal_inv (updateTask a (\<lambda>t. t\<lparr>error := e\<rparr>) m)"
    using assms(1) unfolding good_def terminal_inv_def
    by (simp add: nth_objs_updateTask)
  moreover have "keeps mb (updateTask a (\<lambda>t. t\<lparr>error := e\<rparr>) m)"
    using assms(1) keeps_updateTask [OF assms(2)] by (auto simp: good_def intro: keeps_trans)
  ultimately show ?thesis by (simp add: good_def)
qed

lemma good_handleSessionDeleted:
  "good mb m \<Longrightarrow> good mb (handleSessionDeleted etype infoId sid m)"
proof (rule handleSessionDeleted_cases)
  fix tid a s
  assume g: "good mb m"
    and s: "status (objs m ! a) = Running \<or> status (objs m ! a) = Pending"
  let ?m1 = "updateTask a (\<lambda>t. t\<lparr>status := Cancelled\<rparr>) m"
  let ?m2 = "updateTask a (\<lambda>t. t\<lparr>error := Some ''Session deleted''\<rparr>) ?m1"
  have g1: "good mb ?m1"
    using g s by (intro good_mark_cancelled) (auto simp: settled_def)
  have g2: "good mb ?m2"
    using g1 by (intro good_set_error) (auto simp: settled_def nth_objs_updateTask)
  show "good mb (resolveWaiter tid a (dropSession s ?m2))"
    using g2 by (rule good_same_view) simp_all
qed

lemma good_waitForCompletion: "good mb m \<Longrightarrow> good mb (snd (waitForCompletion tid timeout m))"
proof (rule waitForCompletion_cases)
  assume g: "good mb m"
  show "good mb (settle (nextWaiter m) v (m\<lparr>nextWaiter := nextWaiter m + 1\<rparr>))" for v
    using g by (rule good_same_view) simp_all
  have g1: "good mb (m\<lparr>nextWaiter := nextWaiter m + 1,
               completionResolvers := (completionResolvers m)(tid \<mapsto> nextWaiter m)\<rparr>)"
    using g by (rule good_same_view) simp_all
  then show "good mb (m\<lparr>nextWaiter := nextWaiter m + 1,
               completionResolvers := (completionResolvers m)(tid \<mapsto> nextWaiter m)\<rparr>)" .
  show "good mb (suspend (AwaitTimer (nextWaiter m) tid)
             (m\<lparr>nextWaiter := nextWaiter m + 1,
                completionResolvers := (completionResolvers m)(tid \<mapsto> nextWaiter m)\<rparr>))"
    using g1 by (rule good_suspend_other) simp_all
qed

lemma good_removeFirst:
  assumes "good mb m"
  shows "good mb (m\<lparr>startQueue := removeFirst P (startQueue m)\<rparr>)"
proof -
  have s: "b \<in> set (removeFirst P (startQueue m)) \<Longrightarrow> b \<in> set (startQueue m)" for b
    using set_removeFirst_subset [of P "startQueue m"] by blast
  have d: "distinct (removeFirst P (startQueue m))"
    using assms by (intro distinct_removeFirst) (simp add: good_def terminal_inv_def)
  show ?thesis
    using assms d unfolding good_def terminal_inv_def keeps_def
    by (simp add: s) (meson s)
qed

lemma good_cancelTask:
  assumes "good mb m" and "isActive (status (objs m ! a))"
  shows "good mb (cancelTask key a m)"
proof -
  let ?m1 = "m\<lparr>completionResolvers := (completionResolvers m)(key := None)\<rparr>"
  let ?m2 = "updateTask a (\<lambda>t. t\<lparr>status := Cancelled\<rparr>) ?m1"
  have g1: "good mb ?m1" using assms(1) by (rule good_same_view) simp_all
  have g2: "good mb ?m2"
    using g1 assms(2) by (intro good_mark_cancelled) (auto simp: settled_def isActive_def)
  have g3: "good mb (if c then ?m2\<lparr>startQueue := removeFirst P (startQueue ?m2)\<rparr> else ?m2)" for c P
    using g2 good_removeFirst [OF g2] by simp
  show ?thesis
    unfolding cancelTask_def Let_def by (intro good_completeTask g3) simp
qed

lemma good_cancelEach: "good mb (snd cm) \<Longrightarrow> good mb (snd (cancelEach a cm))"
  by (simp add: cancelEach_def good_cancelTask)

lemma good_fold_cancelEach: "good mb (snd cm) \<Longrightarrow> good mb (snd (fold cancelEach as cm))"
  by (induction as arbitrary: cm) (simp_all add: good_cancelEach)

lemma good_cancel: "good mb m \<Longrightarrow> good mb (snd (cancel tid m))"
  by (simp add: cancel_def good_cancelTask good_fold_cancelEach split: option.splits)

lemma good_cleanup: "good mb m \<Longrightarrow> good mb (cleanup m)"
  unfolding good_def terminal_inv_def keeps_def cleanup_def by simp

lemma good_step:
  assumes "good mb m" and "step e m = Some m'"
  shows "good mb m'"
proof (cases e)
  case (Launch opts rnd)
  then show ?thesis using assms good_launch by auto
next
  case (SessionStatus etype sid st)
  then show ?thesis using assms good_handleSessionStatus by auto
next
  case (SessionDeleted etype infoId sid)
  then show ?thesis using assms good_handleSessionDeleted by auto
next
  case (WaitForCompletion tid timeout)
  then show ?thesis using assms good_waitForCompletion by auto
next
  case (Cancel tid)
  then show ?thesis using assms good_cancel by auto
next
  case Cleanup
  then show ?thesis using assms good_cleanup by auto
next
  case (Resume i r)
  with assms(2) have i: "i < length (inflight m)"
    and r: "resumeOp (inflight m ! i) r (m\<lparr>inflight := removeAt i (inflight m)\<rparr>) = Some m'"
    by (simp_all split: if_splits)
  from assms(1) i r show ?thesis by (rule good_resume)
qed

lemma terminal_newManager: "terminal_inv (newManager tmux cfg)"
  by (simp add: terminal_inv_def newManager_def)

lemma terminal_reachable: "reachable (newManager tmux cfg) m \<Longrightarrow> terminal_inv m"
proof (induction rule: reachable.induct)
  case reachable_init
  show ?case by (rule terminal_newManager)
next
  case (reachable_step m e m')
  then have "good m m" by (simp add: good_def)
  then have "good m m'" using reachable_step(2) by (rule good_step)
  then show ?case by (simp add: good_def)
qed

section \<open>At most one terminal transition: C1\<close>

text \<open>
  C1 as stated fails for \<open>cancelled\<close>: the guard of \<open>completeTask\<close> tests only for
  completed and failed. A session deleted while the message history is being fetched
  leaves the task cancelled with the error \<open>Session deleted\<close>; the extraction then
  resumes and turns it into a completed task with a result.
\<close>

theorem terminal_status_overwritten:
  "status (objs deletedDuringExtract ! 0) = Cancelled \<and>
   result (objs deletedDuringExtract ! 0) = None \<and>
   error (objs deletedDuringExtract ! 0) = Some ''Session deleted'' \<and>
   status (objs (after [Resume 0 (MessagesReturn (Some [textMessage ''assistant'' ''A'']))]
                   deletedDuringExtract) ! 0) = Completed \<and>
   result (objs (after [Resume 0 (MessagesReturn (Some [textMessage ''assistant'' ''A'']))]
                   deletedDuringExtract) ! 0) = Some ''A''"
  by code_simp

text \<open>
  C1, amended. In every state reachable from a new manager, once a task's status is
  completed or failed, no event (a call of the interface with any arguments, a host event,
  or the resumption of a start or of an extraction in flight) changes its status, its
  result or its error.
\<close>

theorem settled_task_is_final:
  assumes "reachable (newManager tmux cfg) m" and "step e m = Some m'"
    and "a < length (objs m)"
    and "status (objs m ! a) = Completed \<or> status (objs m ! a) = Failed"
  shows "status (objs m' ! a) = status (objs m ! a) \<and>
         result (objs m' ! a) = result (objs m ! a) \<and>
         error (objs m' ! a) = error (objs m ! a)"
proof -
  have "good m m" using terminal_reachable [OF assms(1)] by (simp add: good_def)
  then have "good m m'" using assms(2) by (rule good_step)
  then have "objs m' ! a = objs m ! a"
    using assms(3,4) by (auto simp: good_def keeps_def settled_def)
  then show ?thesis by simp
qed

lemma step_after:
  "(case step e m of None \<Rightarrow> False | Some m' \<Rightarrow> True) \<Longrightarrow> step e m = Some (after [e] m)"
  by (auto simp: after_def split: option.splits)

text \<open>
  The second extraction of \<open>completedTwice\<close> returns other messages: the completed task
  keeps its status and its result.
\<close>

theorem settled_task_is_final_witness:
  "status (objs completedTwice ! 0) = Completed \<and>
   result (objs completedTwice ! 0) = Some ''A'' \<and>
   inflight completedTwice = [AwaitMessages 0] \<and>
   status (objs (after [Resume 0 (MessagesReturn (Some [textMessage ''assistant'' ''B'']))]
                   completedTwice) ! 0) = Completed \<and>
   result (objs (after [Resume 0 (MessagesReturn (Some [textMessage ''assistant'' ''B'']))]
                   completedTwice) ! 0) = Some ''A''"
proof -
  let ?e = "Resume 0 (MessagesReturn (Some [textMessage ''assistant'' ''B'']))"
  have r1: "case run [Launch (bgOpts ''explorer'') ''x'', Resume 0 (CreateReturns (Some ''s1'')),
            Resume 0 PromptReturns] (newManager None None) of None \<Rightarrow> False | Some m' \<Rightarrow> True"
    by code_simp
  have r2: "case run [SessionStatus ''session.status'' (Some ''s1'') (Some ''idle''),
            SessionStatus ''session.status'' (Some ''s1'') (Some ''idle''),
            Resume 0 (MessagesReturn (Some [textMessage ''assistant'' ''A'']))] runningTask
        of None \<Rightarrow> False | Some m' \<Rightarrow> True"
    by code_simp
  have reach: "reachable (newManager None None) completedTwice"
    unfolding completedTwice_def
    by (rule after_reachable [OF r2]) (unfold runningTask_def, rule after_reachable [OF r1 reachable_init])
  have s: "case step ?e completedTwice of None \<Rightarrow> False | Some m' \<Rightarrow> True"
    by code_simp
  have h: "0 < length (objs completedTwice)" "status (objs completedTwice ! 0) = Completed"
    "result (objs completedTwice ! 0) = Some ''A''" "inflight completedTwice = [AwaitMessages 0]"
    by code_simp+
  from settled_task_is_final [OF reach step_after [OF s] h(1)] h show ?thesis by simp
qed

section \<open>Completion waiters\<close>

lemma waiters_frame [simp]:
  "completionResolvers (updateTask a f m) = completionResolvers m"
  "outcomes (updateTask a f m) = outcomes m"
  "completionResolvers (hostCall c m) = completionResolvers m"
  "outcomes (hostCall c m) = outcomes m"
  "completionResolvers (dropSession s m) = completionResolvers m"
  "outcomes (dropSession s m) = outcomes m"
  by (simp_all add: updateTask_def hostCall_def dropSession_def)

lemma resolveWaiter_registered:
  assumes "completionResolvers m key = Some w" and "outcomes m w = None"
  shows "completionResolvers (resolveWaiter key a m) key = None"
    and "outcomes (resolveWaiter key a m) w = Some (Some a)"
  using assms by (simp_all add: resolveWaiter_def settle_def)

lemma resolveWaiter_absent:
  assumes "completionResolvers m key = None"
  shows "resolveWaiter key a m = m"
  using assms by (simp add: resolveWaiter_def)

lemma completeTask_resolves:
  assumes "a < length (objs m)"
    and "status (objs m ! a) \<noteq> Completed" and "status (objs m ! a) \<noteq> Failed"
    and "completionResolvers m (taskId (objs m ! a)) = Some w" and "outcomes m w = None"
  shows "completionResolvers (completeTask a st r m) (taskId (objs m ! a)) = None"
    and "outcomes (completeTask a st r m) w = Some (Some a)"
  using assms
  by (simp_all add: completeTask_def Let_def nth_objs_updateTask resolveWaiter_registered)

lemma handleSessionDeleted_resolves:
  assumes "s \<noteq> []" and "tasksBySessionId m s = Some tid" and "tid \<noteq> []"
    and "map_of (tasks m) tid = Some a" and "a < length (objs m)"
    and "status (objs m ! a) = Running \<or> status (objs m ! a) = Pending"
    and "completionResolvers m tid = Some w" and "outcomes m w = None"
  shows "status (objs (handleSessionDeleted ''session.deleted'' (Some s) x m) ! a) = Cancelled"
    and "completionResolvers (handleSessionDeleted ''session.deleted'' (Some s) x m) tid = None"
    and "outcomes (handleSessionDeleted ''session.deleted'' (Some s) x m) w = Some (Some a)"
  using assms
  by (simp_all add: handleSessionDeleted_def Let_def truthy_def nth_objs_updateTask
      resolveWaiter_registered)

lemma waitTimeout_resolves:
  "completionResolvers (waitTimeout w tid m) tid = None"
  "outcomes m w = None \<Longrightarrow> outcomes (waitTimeout w tid m) w = Some (map_of (tasks m) tid)"
  by (simp_all add: waitTimeout_def Let_def settle_def split: option.splits)

lemma cancelTask_drops:
  assumes "a < length (objs m)" and "isActive (status (objs m ! a))"
    and "taskId (objs m ! a) = key"
  shows "status (objs (cancelTask key a m) ! a) = Cancelled"
    and "completionResolvers (cancelTask key a m) key = None"
    and "outcomes (cancelTask key a m) = outcomes m"
proof -
  let ?m1 = "m\<lparr>completionResolvers := (completionResolvers m)(key := None)\<rparr>"
  let ?m2 = "updateTask a (\<lambda>t. t\<lparr>status := Cancelled\<rparr>) ?m1"
  define m3 where "m3 =
    (if status (objs ?m1 ! a) = Pending
     then ?m2\<lparr>startQueue := removeFirst (\<lambda>b. taskId (objs ?m2 ! b) = key) (startQueue ?m2)\<rparr>
     else ?m2)"
  have c: "cancelTask key a m = completeTask a Cancelled ''Cancelled by user'' m3"
    by (simp add: cancelTask_def Let_def m3_def)
  have f: "objs m3 = objs ?m2" "completionResolvers m3 = (completionResolvers m)(key := None)"
    "outcomes m3 = outcomes m"
    by (simp_all add: m3_def)
  have o: "objs ?m2 ! a = (objs m ! a)\<lparr>status := Cancelled\<rparr>" "length (objs ?m2) = length (objs m)"
    using assms(1) by (simp_all add: nth_objs_updateTask)
  have r: "completionResolvers m3 (taskId (objs m3 ! a)) = None"
    using assms(3) by (simp add: f o)
  show "status (objs (cancelTask key a m) ! a) = Cancelled"
    unfolding c using assms(1) by (simp add: status_completeTask f o)
  have e: "completeTask a Cancelled ''Cancelled by user'' m3 =
      resolveWaiter (taskId (objs m3 ! a)) a
        (let m5 = updateTask a (\<lambda>t. t\<lparr>error := Some ''Cancelled by user''\<rparr>)
                    (updateTask a (\<lambda>t. t\<lparr>status := Cancelled\<rparr>) m3);
             t = objs m5 ! a;
             m6 = (if truthy (sessionId t) then dropSession (the (sessionId t)) m5 else m5);
             m7 = (if truthy (sessionId t) then hostCall (SessionAbort (the (sessionId t))) m6 else m6)
         in if parentSessionId t \<noteq> []
            then hostCall (ParentNotification (parentSessionId t) (completionMessage t)) m7
            else m7)"
    using assms(1) by (simp add: completeTask_def Let_def f o nth_objs_updateTask)
  show "completionResolvers (cancelTask key a m) key = None"
    unfolding c e using r assms(3)
    by (subst resolveWaiter_absent) (simp_all add: Let_def f o)
  show "outcomes (cancelTask key a m) = outcomes m"
    unfolding c e using r
    by (subst resolveWaiter_absent) (simp_all add: Let_def f o)
qed

section \<open>Resolution of completion waiters: C4\<close>

text \<open>
  C4 as stated fails for \<open>cancel\<close>: it deletes the resolver before it calls
  \<open>completeTask\<close>, so the waiter is removed and its promise never settles.
\<close>

theorem cancel_drops_waiter:
  "completionResolvers waitingStarting ''bg_x'' = Some 0 \<and>
   status (objs cancelledWithWaiter ! 0) = Cancelled \<and>
   completionResolvers cancelledWithWaiter ''bg_x'' = None \<and>
   outcomes cancelledWithWaiter 0 = None \<and>
   inflight cancelledWithWaiter = [AwaitCreate 0]"
  by code_simp

text \<open>
  C4, amended. A waiter registered for a task and not yet resolved is resolved with the
  task record and removed when \<open>completeTask\<close> makes the task terminal and when the
  session-deleted handler cancels it; the timer of a wait removes the registration and
  settles the promise; \<open>cancel\<close> makes the task cancelled and removes the waiter
  without resolving it.
\<close>

theorem waiter_resolved_or_dropped:
  "(a < length (objs m) \<longrightarrow>
      status (objs m ! a) \<noteq> Completed \<longrightarrow> status (objs m ! a) \<noteq> Failed \<longrightarrow>
      completionResolvers m (taskId (objs m ! a)) = Some w \<longrightarrow> outcomes m w = None \<longrightarrow>
        completionResolvers (completeTask a st r m) (taskId (objs m ! a)) = None \<and>
        outcomes (completeTask a st r m) w = Some (Some a)) \<and>
   (s \<noteq> [] \<longrightarrow> tasksBySessionId m2 s = Some tid2 \<longrightarrow> tid2 \<noteq> [] \<longrightarrow>
      map_of (tasks m2) tid2 = Some a2 \<longrightarrow> a2 < length (objs m2) \<longrightarrow>
      status (objs m2 ! a2) = Running \<or> status (objs m2 ! a2) = Pending \<longrightarrow>
      completionResolvers m2 tid2 = Some w2 \<longrightarrow> outcomes m2 w2 = None \<longrightarrow>
        status (objs (handleSessionDeleted ''session.deleted'' (Some s) x m2) ! a2) = Cancelled \<and>
        completionResolvers (handleSessionDeleted ''session.deleted'' (Some s) x m2) tid2 = None \<and>
        outcomes (handleSessionDeleted ''session.deleted'' (Some s) x m2) w2 = Some (Some a2)) \<and>
   (outcomes m3 w3 = None \<longrightarrow>
        completionResolvers (waitTimeout w3 tid3 m3) tid3 = None \<and>
        outcomes (waitTimeout w3 tid3 m3) w3 = Some (map_of (tasks m3) tid3)) \<and>
   (tid4 \<noteq> [] \<longrightarrow> map_of (tasks m4) tid4 = Some a4 \<longrightarrow> a4 < length (objs m4) \<longrightarrow>
      isActive (status (objs m4 ! a4)) \<longrightarrow> taskId (objs m4 ! a4) = tid4 \<longrightarrow>
        fst (cancel (Some tid4) m4) = 1 \<and>
        status (objs (snd (cancel (Some tid4) m4)) ! a4) = Cancelled \<and>
        completionResolvers (snd (cancel (Some tid4) m4)) tid4 = None \<and>
        outcomes (snd (cancel (Some tid4) m4)) = outcomes m4)"
proof (intro conjI impI)
  assume "a < length (objs m)" "status (objs m ! a) \<noteq> Completed" "status (objs m ! a) \<noteq> Failed"
    "completionResolvers m (taskId (objs m ! a)) = Some w" "outcomes m w = None"
  then show "completionResolvers (completeTask a st r m) (taskId (objs m ! a)) = None"
    "outcomes (completeTask a st r m) w = Some (Some a)"
    by (rule completeTask_resolves)+
next
  assume "s \<noteq> []" "tasksBySessionId m2 s = Some tid2" "tid2 \<noteq> []"
    "map_of (tasks m2) tid2 = Some a2" "a2 < length (objs m2)"
    "status (objs m2 ! a2) = Running \<or> status (objs m2 ! a2) = Pending"
    "completionResolvers m2 tid2 = Some w2" "outcomes m2 w2 = None"
  then show "status (objs (handleSessionDeleted ''session.deleted'' (Some s) x m2) ! a2) = Cancelled"
    "completionResolvers (handleSessionDeleted ''session.deleted'' (Some s) x m2) tid2 = None"
    "outcomes (handleSessionDeleted ''session.deleted'' (Some s) x m2) w2 = Some (Some a2)"
    by (rule handleSessionDeleted_resolves)+
next
  assume "outcomes m3 w3 = None"
  then show "outcomes (waitTimeout w3 tid3 m3) w3 = Some (map_of (tasks m3) tid3)"
    by (rule waitTimeout_resolves)
  show "completionResolvers (waitTimeout w3 tid3 m3) tid3 = None"
    by (rule waitTimeout_resolves)
next
  assume h: "tid4 \<noteq> []" "map_of (tasks m4) tid4 = Some a4" "a4 < length (objs m4)"
    "isActive (status (objs m4 ! a4))" "taskId (objs m4 ! a4) = tid4"
  then have c: "cancel (Some tid4) m4 = (1, cancelTask tid4 a4 m4)"
    by (simp add: cancel_def truthy_def)
  show "fst (cancel (Some tid4) m4) = 1" by (simp add: c)
  show "status (objs (snd (cancel (Some tid4) m4)) ! a4) = Cancelled"
    unfolding c snd_conv using h(3,4,5) by (rule cancelTask_drops)
  show "completionResolvers (snd (cancel (Some tid4) m4)) tid4 = None"
    unfolding c snd_conv using h(3,4,5) by (rule cancelTask_drops)
  show "outcomes (snd (cancel (Some tid4) m4)) = outcomes m4"
    unfolding c snd_conv using h(3,4,5) by (rule cancelTask_drops)
qed

text \<open>
  The waiter 0 registered for \<open>bg_x\<close>: resolved by completion, by session deletion and
  by its timer, and left unresolved by \<open>cancel\<close>.
\<close>

theorem waiter_resolved_or_dropped_witness:
  "completionResolvers waitingRunning ''bg_x'' = Some 0 \<and> outcomes waitingRunning 0 = None \<and>
   status (objs waitingRunning ! 0) = Running \<and>
   completionResolvers (completeTask 0 Completed ''A'' waitingRunning) ''bg_x'' = None \<and>
   outcomes (completeTask 0 Completed ''A'' waitingRunning) 0 = Some (Some 0) \<and>
   completionResolvers (handleSessionDeleted ''session.deleted'' (Some ''s1'') None waitingRunning) ''bg_x'' = None \<and>
   outcomes (handleSessionDeleted ''session.deleted'' (Some ''s1'') None waitingRunning) 0 = Some (Some 0) \<and>
   completionResolvers waitingTimed ''bg_x'' = Some 0 \<and> outcomes waitingTimed 0 = None \<and>
   completionResolvers (waitTimeout 0 ''bg_x'' waitingTimed) ''bg_x'' = None \<and>
   outcomes (waitTimeout 0 ''bg_x'' waitingTimed) 0 = Some (Some 0) \<and>
   completionResolvers waitingStarting ''bg_x'' = Some 0 \<and> outcomes waitingStarting 0 = None \<and>
   status (objs (snd (cancel (Some ''bg_x'') waitingStarting)) ! 0) = Cancelled \<and>
   completionResolvers (snd (cancel (Some ''bg_x'') waitingStarting)) ''bg_x'' = None \<and>
   outcomes (snd (cancel (Some ''bg_x'') waitingStarting)) 0 = None"
proof -
  have h1: "0 < length (objs waitingRunning)" "status (objs waitingRunning ! 0) = Running"
    "taskId (objs waitingRunning ! 0) = ''bg_x''"
    "completionResolvers waitingRunning ''bg_x'' = Some 0" "outcomes waitingRunning 0 = None"
    "tasksBySessionId waitingRunning ''s1'' = Some ''bg_x''"
    "map_of (tasks waitingRunning) ''bg_x'' = Some 0"
    by code_simp+
  have h3: "completionResolvers waitingTimed ''bg_x'' = Some 0" "outcomes waitingTimed 0 = None"
    "map_of (tasks waitingTimed) ''bg_x'' = Some 0"
    by code_simp+
  have h4: "map_of (tasks waitingStarting) ''bg_x'' = Some 0" "0 < length (objs waitingStarting)"
    "isActive (status (objs waitingStarting ! 0))" "taskId (objs waitingStarting ! 0) = ''bg_x''"
    "completionResolvers waitingStarting ''bg_x'' = Some 0" "outcomes waitingStarting 0 = None"
    by code_simp+
  have n: "''s1'' \<noteq> []" "''bg_x'' \<noteq> []" by simp_all
  note t = waiter_resolved_or_dropped [of 0 waitingRunning 0 Completed "''A''"
      "''s1''" waitingRunning "''bg_x''" 0 0 None waitingTimed 0 "''bg_x''" "''bg_x''" waitingStarting 0]
  from t h1 h3 h4 n show ?thesis by simp
qed

section \<open>Delegation policy: C9 and C10\<close>

text \<open>
  C9. For a role \<open>R\<close> whose configured delegation roster is empty, \<open>isAgentAllowed\<close> is
  false for a parent session owned by \<open>R\<close> and every requested role \<open>X\<close>, and the tool
  permissions computed for \<open>R\<close> have both \<open>background_task\<close> and \<open>task\<close> false.
\<close>

theorem empty_roster_disables_delegation:
  assumes "SUBAGENT_DELEGATION_RULES R = Some []" and "agentBySessionId m p = Some R"
  shows "isAgentAllowed m p X = Inr False \<and>
         calculateToolPermissions R = \<lparr>background_task = False, task = False\<rparr>"
  using assms
  by (simp add: isAgentAllowed_def calculateToolPermissions_def getSubagentRules_def
      getProperty_def)

text \<open>The role \<open>fixer\<close>, for the session \<open>s1\<close> created for a launched fixer task.\<close>

theorem empty_roster_disables_delegation_witness:
  "SUBAGENT_DELEGATION_RULES ''fixer'' = Some [] \<and>
   agentBySessionId (after [Launch (bgOpts ''fixer'') ''x'', Resume 0 (CreateReturns (Some ''s1''))]
                       (newManager None None)) ''s1'' = Some ''fixer'' \<and>
   isAgentAllowed (after [Launch (bgOpts ''fixer'') ''x'', Resume 0 (CreateReturns (Some ''s1''))]
                       (newManager None None)) ''s1'' ''explorer'' = Inr False \<and>
   calculateToolPermissions ''fixer'' = \<lparr>background_task = False, task = False\<rparr>"
proof -
  have r: "SUBAGENT_DELEGATION_RULES ''fixer'' = Some []"
    by (simp add: SUBAGENT_DELEGATION_RULES_def)
  have s: "agentBySessionId (after [Launch (bgOpts ''fixer'') ''x'', Resume 0 (CreateReturns (Some ''s1''))]
                       (newManager None None)) ''s1'' = Some ''fixer''"
    by code_simp
  from empty_roster_disables_delegation [OF r s, of "''explorer''"] r s show ?thesis by blast
qed

text \<open>
  Where the parent's role reads as an array (a role of the table, or a role that is
  neither in the table nor an inherited property name), the check and the list agree, and
  a role outside both resolves to the explorer-only default.
\<close>

lemma isAgentAllowed_listed:
  "getAllowedSubagents m p = Roster rules \<Longrightarrow> isAgentAllowed m p r = Inr (r \<in> set rules)"
  by (auto simp: isAgentAllowed_def getAllowedSubagents_def Let_def)

lemma getAllowedSubagents_unknown:
  "agentBySessionId m p = Some R \<Longrightarrow> SUBAGENT_DELEGATION_RULES R = None \<Longrightarrow>
   objectPrototype R = None \<Longrightarrow> getAllowedSubagents m p = Roster [''explorer'']"
  by (simp add: getAllowedSubagents_def getSubagentRules_def getProperty_def)

lemma getAllowedSubagents_untracked:
  "agentBySessionId m p = None \<Longrightarrow> getAllowedSubagents m p = Roster SUBAGENT_NAMES"
  by (simp add: getAllowedSubagents_def getSubagentRules_def getProperty_def
      SUBAGENT_DELEGATION_RULES_def)

text \<open>
  C10. The claim has \<open>isAgentAllowed\<close> hold exactly when the requested role is in the list
  \<open>getAllowedSubagents\<close> returns, a role outside the table resolving to the explorer-only
  default in both. For a session owned by a launched task of role \<open>constructor\<close> or
  \<open>toString\<close>, roles that are not in the table, the code does otherwise: the lookup finds
  the property every object inherits under that name. For \<open>constructor\<close> the check throws
  a \<open>TypeError\<close> and the list is a function of arity 1; for \<open>toString\<close> the check denies
  \<open>explorer\<close> and the list is a function of arity 0. Neither list is the explorer-only
  default.
\<close>

theorem inherited_role_misses_default:
  "SUBAGENT_DELEGATION_RULES ''constructor'' = None \<and>
   agentBySessionId (sessionOf ''constructor'') ''s1'' = Some ''constructor'' \<and>
   isAgentAllowed (sessionOf ''constructor'') ''s1'' ''explorer'' = Inl TypeError \<and>
   getAllowedSubagents (sessionOf ''constructor'') ''s1'' = Foreign (Some 1) \<and>
   SUBAGENT_DELEGATION_RULES ''toString'' = None \<and>
   agentBySessionId (sessionOf ''toString'') ''s1'' = Some ''toString'' \<and>
   isAgentAllowed (sessionOf ''toString'') ''s1'' ''explorer'' = Inr False \<and>
   getAllowedSubagents (sessionOf ''toString'') ''s1'' = Foreign (Some 0)"
  by code_simp

section \<open>Fallback resolution and model parsing: C7 and C8\<close>

text \<open>
  C7 as stated fails: with the empty string as primary model and chain \<open>[q/b]\<close>, the
  resolver skips the empty string, while skipping only null entries would keep it.
\<close>

theorem resolveFallbackChain_counterexample:
  "resolveFallbackChain (modelConfig ''oracle'' (Some '''') [Some ''q/b'']) ''oracle'' = Inr [''q/b''] \<and>
   configuredChain (modelConfig ''oracle'' (Some '''') [Some ''q/b'']) ''oracle'' =
     ChainArray [Some ''q/b''] \<and>
   spec_resolve_chain (primaryModel (modelConfig ''oracle'' (Some '''') [Some ''q/b'']) ''oracle'')
     [Some ''q/b''] = ['''', ''q/b'']"
  by (simp add: resolveFallbackChain_def spec_resolve_chain_def primaryModel_def configuredChain_def
      getProperty_def modelConfig_def truthy_def firstSeen_def)

text \<open>
  C7, amended. For every role whose configured fallback sequence reads as an array, the
  resolved chain is the role's configured primary model followed by that sequence, with
  null, absent and empty-string entries skipped and duplicates removed in first-seen
  order. The sequence reads as an array (the role's own, or the empty default) for every
  role whose name is not a property name inherited from \<open>Object.prototype\<close>.
\<close>

theorem resolveFallbackChain_first_seen:
  "(configuredChain cfg role = ChainArray chain \<longrightarrow>
      resolveFallbackChain cfg role = Inr (truthy_resolve_chain (primaryModel cfg role) chain)) \<and>
   (objectPrototype role = None \<longrightarrow> (\<exists>own. configuredChain cfg role = ChainArray own))"
  by (simp add: resolveFallbackChain_def truthy_resolve_chain_def chainLoop_eq
      configuredChain_def getProperty_def
      del: chainLoop.simps filter.simps split: option.splits)

text \<open>Primary \<open>p/a\<close> with chain \<open>[p/a, q/b, q/b]\<close> resolves to \<open>[p/a, q/b]\<close>.\<close>

theorem resolveFallbackChain_first_seen_witness:
  "configuredChain (modelConfig ''oracle'' (Some ''p/a'') [Some ''p/a'', Some ''q/b'', Some ''q/b''])
     ''oracle'' = ChainArray [Some ''p/a'', Some ''q/b'', Some ''q/b''] \<and>
   objectPrototype ''oracle'' = None \<and>
   resolveFallbackChain (modelConfig ''oracle'' (Some ''p/a'') [Some ''p/a'', Some ''q/b'', Some ''q/b''])
     ''oracle'' = Inr [''p/a'', ''q/b'']"
proof -
  have c: "configuredChain (modelConfig ''oracle'' (Some ''p/a'') [Some ''p/a'', Some ''q/b'', Some ''q/b''])
     ''oracle'' = ChainArray [Some ''p/a'', Some ''q/b'', Some ''q/b'']"
    by (simp add: configuredChain_def getProperty_def modelConfig_def)
  have p: "objectPrototype ''oracle'' = None"
    by (simp add: objectPrototype_def)
  have t: "truthy_resolve_chain
      (primaryModel (modelConfig ''oracle'' (Some ''p/a'') [Some ''p/a'', Some ''q/b'', Some ''q/b'']) ''oracle'')
      [Some ''p/a'', Some ''q/b'', Some ''q/b''] = [''p/a'', ''q/b'']"
    by (simp add: truthy_resolve_chain_def primaryModel_def getProperty_def
        modelConfig_def truthy_def firstSeen_def)
  from resolveFallbackChain_first_seen
    [of "modelConfig ''oracle'' (Some ''p/a'') [Some ''p/a'', Some ''q/b'', Some ''q/b'']"
        "''oracle''" "[Some ''p/a'', Some ''q/b'', Some ''q/b'']"] c p
  show ?thesis unfolding t by blast
qed

text \<open>
  C8. Parsing a model identifier fails exactly when the separator (the first \<open>/\<close>) is
  missing, is the first character, or is the last character. In the attempt loop a
  candidate that does not parse is recorded as the error \<open>model: Invalid fallback model
  format: model\<close> and the loop goes on with the next candidate; when the candidates are
  exhausted the aggregated error is caught by \<open>startTask\<close> itself, which fails the task
  and runs its \<open>finally\<close> block.
\<close>

theorem unparsable_model_is_attempt_error:
  "(parseModelReference s = None \<longleftrightarrow>
      (CHR ''/'' \<notin> set s \<or> (\<exists>r. s = CHR ''/'' # r) \<or> (\<exists>p. s = p @ ''/'' \<and> CHR ''/'' \<notin> set p))) \<and>
   (parseModelReference s = None \<longrightarrow> s \<noteq> [] \<longrightarrow>
      attemptLoop a ctx (Some s # rest) errs m =
      attemptLoop a ctx rest (errs @ [s @ '': Invalid fallback model format: '' @ s]) m) \<and>
   (nextAttempt models errs = Exhausted errs' \<longrightarrow>
      startSettle a (attemptLoop a ctx models errs m) =
      startFinally (completeTask a Failed (allFailedMessage errs') m))"
proof (intro conjI impI)
  show "parseModelReference s = None \<longleftrightarrow>
      (CHR ''/'' \<notin> set s \<or> (\<exists>r. s = CHR ''/'' # r) \<or> (\<exists>p. s = p @ ''/'' \<and> CHR ''/'' \<notin> set p))"
    by (rule parseModelReference_None_iff)
next
  assume "parseModelReference s = None" "s \<noteq> []"
  then show "attemptLoop a ctx (Some s # rest) errs m =
      attemptLoop a ctx rest (errs @ [s @ '': Invalid fallback model format: '' @ s]) m"
    by (simp add: attemptLoop_def attemptBody_unparsable attemptError_def truthy_def)
next
  assume "nextAttempt models errs = Exhausted errs'"
  then show "startSettle a (attemptLoop a ctx models errs m) =
      startFinally (completeTask a Failed (allFailedMessage errs') m)"
    by (simp add: attemptLoop_def startSettle_def)
qed

text \<open>
  The identifier \<open>badmodel\<close>: the start of a task whose only candidate it is ends with
  the task failed, the per-attempt error in its message, and no start left in flight.
\<close>

theorem unparsable_model_is_attempt_error_witness:
  "parseModelReference ''badmodel'' = None \<and>
   CHR ''/'' \<notin> set ''badmodel'' \<and>
   nextAttempt [Some ''badmodel''] [] =
     Exhausted [''badmodel: Invalid fallback model format: badmodel''] \<and>
   status (objs badModelStart ! 0) = Failed \<and>
   error (objs badModelStart ! 0) =
     Some ''All fallback models failed. badmodel: Invalid fallback model format: badmodel'' \<and>
   activeStarts badModelStart = 0 \<and> inflight badModelStart = []"
proof -
  have n: "CHR ''/'' \<notin> set ''badmodel''" by simp
  have p: "parseModelReference ''badmodel'' = None"
    using unparsable_model_is_attempt_error [of "''badmodel''"] n by blast
  have e: "nextAttempt [Some ''badmodel''] [] =
     Exhausted [''badmodel: Invalid fallback model format: badmodel'']"
    using p by (simp add: attemptBody_unparsable attemptError_def truthy_def)
  have s: "status (objs badModelStart ! 0) = Failed \<and>
   error (objs badModelStart ! 0) =
     Some ''All fallback models failed. badmodel: Invalid fallback model format: badmodel'' \<and>
   activeStarts badModelStart = 0 \<and> inflight badModelStart = []"
    by code_simp
  from n p e s show ?thesis by blast
qed

section \<open>Result extraction on idle: C6\<close>

text \<open>
  C6. An idle status event for the session of a running task starts the fetch of the
  message history; when the history arrives and the task is still running, the task
  completes and its stored result is the concatenation, in message then part order, of
  the non-empty text and reasoning parts of the assistant-authored messages, joined by a
  blank line, or the marker \<open>(No output)\<close> when there is no such part.
\<close>

theorem idle_event_stores_concatenation:
  assumes "s \<noteq> []" and "tasksBySessionId m s = Some tid" and "tid \<noteq> []"
    and "map_of (tasks m) tid = Some a"
    and "status (objs m ! a) = Running"
    and "sessionId (objs m ! a) = Some s'" and "s' \<noteq> []"
    and "a < length (objs m2)" and "status (objs m2 ! a) = Running"
  shows "handleSessionStatus ''session.status'' (Some s) (Some ''idle'') m =
           suspend (AwaitMessages a) (hostCall (SessionMessages s') m) \<and>
         status (objs (extractFinish a (Some messages) m2) ! a) = Completed \<and>
         result (objs (extractFinish a (Some messages) m2) ! a) =
           Some (if spec_fragments messages = [] then ''(No output)''
                 else join [CHR 0x0A, CHR 0x0A] (spec_fragments messages))"
  using assms
  by (simp add: handleSessionStatus_def extractAndCompleteTask_def truthy_def
      extractFinish_def objs_completeTask extractedResult_eq)

text \<open>
  Two assistant messages with the text parts \<open>A\<close> and \<open>B\<close> around a user message give
  \<open>A\<close>, a blank line, \<open>B\<close>; a history without assistant text gives \<open>(No output)\<close>.
\<close>

theorem idle_event_stores_concatenation_witness:
  "handleSessionStatus ''session.status'' (Some ''s1'') (Some ''idle'') runningTask =
     suspend (AwaitMessages 0) (hostCall (SessionMessages ''s1'') runningTask) \<and>
   result (objs (extractFinish 0
       (Some [textMessage ''assistant'' ''A'', textMessage ''user'' ''U'', textMessage ''assistant'' ''B''])
       (handleSessionStatus ''session.status'' (Some ''s1'') (Some ''idle'') runningTask)) ! 0) =
     Some [CHR ''A'', CHR 0x0A, CHR 0x0A, CHR ''B''] \<and>
   result (objs (extractFinish 0 (Some [textMessage ''user'' ''U''])
       (handleSessionStatus ''session.status'' (Some ''s1'') (Some ''idle'') runningTask)) ! 0) =
     Some ''(No output)''"
proof -
  let ?m2 = "handleSessionStatus ''session.status'' (Some ''s1'') (Some ''idle'') runningTask"
  have h: "''s1'' \<noteq> []" "tasksBySessionId runningTask ''s1'' = Some ''bg_x''" "''bg_x'' \<noteq> []"
    "map_of (tasks runningTask) ''bg_x'' = Some 0" "status (objs runningTask ! 0) = Running"
    "sessionId (objs runningTask ! 0) = Some ''s1''"
    "0 < length (objs ?m2)" "status (objs ?m2 ! 0) = Running"
    by code_simp+
  have e: "(if spec_fragments [textMessage ''assistant'' ''A'', textMessage ''user'' ''U'', textMessage ''assistant'' ''B''] = []
        then ''(No output)''
        else join [CHR 0x0A, CHR 0x0A]
          (spec_fragments [textMessage ''assistant'' ''A'', textMessage ''user'' ''U'', textMessage ''assistant'' ''B'']))
      = [CHR ''A'', CHR 0x0A, CHR 0x0A, CHR ''B'']"
    "(if spec_fragments [textMessage ''user'' ''U''] = [] then ''(No output)''
        else join [CHR 0x0A, CHR 0x0A] (spec_fragments [textMessage ''user'' ''U'']))
      = ''(No output)''"
    by (simp_all add: spec_fragments_def textMessage_def)
  note t = idle_event_stores_concatenation [OF h(1) h(2) h(3) h(4) h(5) h(6) h(1) h(7) h(8)]
  from t [of "[textMessage ''assistant'' ''A'', textMessage ''user'' ''U'', textMessage ''assistant'' ''B'']"]
    t [of "[textMessage ''user'' ''U'']"]
  show ?thesis unfolding e by blast
qed

section \<open>Waiting for completion: C3\<close>

text \<open>
  C3. A wait whose timeout elapses before the task is terminal should return null. The
  timer callback resolves the promise with the registry entry instead: the promise of
  the scenario \<open>waitTimedOut\<close> settles to the task object, whose status is \<open>starting\<close>.
\<close>

theorem wait_timeout_returns_task:
  "fst (waitForCompletion ''bg_x'' 100
          (after [Launch (bgOpts ''explorer'') ''x''] (newManager None None))) = 0 \<and>
   status (objs waitTimedOut ! 0) = Starting \<and>
   outcomes waitTimedOut 0 = Some (Some 0)"
  by code_simp

section \<open>Distinct task ids\<close>




lemma sessions_frame [simp]:
  "tasksBySessionId (updateTask a f m) = tasksBySessionId m"
  "tasksBySessionId (hostCall c m) = tasksBySessionId m"
  "tasksBySessionId (suspend p m) = tasksBySessionId m"
  "tasksBySessionId (settle w v m) = tasksBySessionId m"
  "tasksBySessionId (resolveWaiter k a m) = tasksBySessionId m"
  by (simp_all add: updateTask_def hostCall_def suspend_def settle_def resolveWaiter_def
      split: option.splits)

















subsection \<open>Every event with a fresh id keeps the ids distinct and the queue pending\<close>










lemma length_objs_cancelTask [simp]: "length (objs (cancelTask key a m)) = length (objs m)"
  by (simp add: cancelTask_def Let_def)


lemma length_objs_cancelEach [simp]:
  "length (objs (snd (cancelEach a cm))) = length (objs (snd cm))"
  by (simp add: cancelEach_def)













section \<open>Cancellation of a queued task: C2\<close>




end
